theory Spec2Isabelle
  imports Main "HOL-Library.AList" "HOL-Library.While_Combinator"
begin

section \<open>The asynchronous frame-display inference driver\<close>

text \<open>
  The development embeds \<^verbatim>\<open>do_inference\<close> of the notebook
  \<^verbatim>\<open>110-ct-segmentation-quantize.ipynb\<close>:
  \<^verbatim>\<open>
    next_frame_id = 0
    next_frame_id_to_show = 0
    pipeline = CTAsyncPipeline(ie=ie, model=model, plugin_config={}, device=device, max_num_requests=0)
    while next_frame_id < len(imagelist) - 1:
        results = pipeline.get_result(next_frame_id_to_show)
        if results:
            result, meta = results
            display_handle = showarray(result, display_handle)
            next_frame_id_to_show += 1
        if pipeline.is_ready():
            image = imagelist[next_frame_id]
            pipeline.submit_data(inputs={input_layer: image}, id=next_frame_id, meta={"frame": image})
            next_frame_id += 1
        else:
            pipeline.await_any()
    pipeline.await_all()
    while pipeline.has_completed_request():
        results = pipeline.get_result(next_frame_id_to_show)
        if results:
            result, meta = results
            display_handle = showarray(result, display_handle)
            next_frame_id_to_show += 1
  \<close>
  The driver is single threaded; the pipeline it polls completes requests on its own
  threads. The pipeline class itself (\<^verbatim>\<open>async_inference.CTAsyncPipeline\<close>) is
  imported by the notebook and is not among the sources, so it is modelled from the
  specification's description of the engine. The timing and printing at the end of the
  function are not part of the model.
\<close>

subsection \<open>Errors\<close>

text \<open>
  The driver defines no exception of its own and catches none. \<open>EngineError\<close> and
  \<open>EngineBusy\<close> are the engine's errors and \<open>InvalidInput\<close> is the error the
  specification names for an empty input; \<open>IndexError\<close> is Python's for
  \<^verbatim>\<open>imagelist[next_frame_id]\<close> out of range.
\<close>

datatype error = InvalidInput | EngineBusy | EngineError string | IndexError

subsection \<open>The pipeline\<close>

text \<open>The calls the driver makes on the pipeline, as the pipeline records them.\<close>

datatype 'p call =
    GetResult nat
  | IsReady
  | SubmitData nat 'p
  | AwaitAny
  | AwaitAll
  | HasCompletedRequest

text \<open>
  What the engine does on its own threads between two calls of the driver: the
  requests with the listed sequence ids complete, in that order, and the call that
  follows raises the given error, if any.
\<close>

type_synonym event = "nat list \<times> error option"

text \<open>
  Modelled from the spec: the class \<^verbatim>\<open>CTAsyncPipeline\<close> is missing from the
  sources. The engine executes at most \<open>num_requests\<close> requests at a time (its
  capacity); \<open>in_flight\<close> holds the submitted requests that have not completed, each
  with its sequence id, input and metadata; \<open>completed_request_results\<close> is the
  pending set, a dictionary from sequence id to the completion record (result and
  metadata), from which an entry is removed when it is handed out. \<open>schedule\<close> fixes
  the order in which the engine completes requests and the calls in which it fails;
  \<open>calls\<close> is the record of the calls received.
\<close>

record ('p, 'r) async_pipeline =
  model :: "'p \<Rightarrow> 'r"
  num_requests :: nat
  in_flight :: "(nat \<times> 'p \<times> 'p) list"
  completed_request_results :: "(nat \<times> 'r \<times> 'p) list"
  schedule :: "event list"
  calls :: "'p call list"

text \<open>What a call on the pipeline does: it returns, raises, or blocks for ever.\<close>

datatype 'a reply = Ret 'a | Exn error | Hang

text \<open>
  The pipeline as its constructor leaves it: nothing submitted, nothing completed.
\<close>

definition CTAsyncPipeline ::
  "('p \<Rightarrow> 'r) \<Rightarrow> nat \<Rightarrow> event list \<Rightarrow> ('p, 'r) async_pipeline" where
  "CTAsyncPipeline m n sched =
     \<lparr>model = m, num_requests = n, in_flight = [], completed_request_results = [],
      schedule = sched, calls = []\<rparr>"

text \<open>
  Modelled from the spec: the request with sequence id \<open>i\<close> completes. Its completion
  record is stored under \<open>i\<close> in the pending set and its slot becomes free. An id that
  is not in flight completes nothing.
\<close>

definition complete :: "nat \<Rightarrow> ('p, 'r) async_pipeline \<Rightarrow> ('p, 'r) async_pipeline" where
  "complete i p =
     (case map_of (in_flight p) i of
        None \<Rightarrow> p
      | Some (inputs, meta) \<Rightarrow>
          p\<lparr>in_flight := AList.delete i (in_flight p),
            completed_request_results :=
              AList.update i (model p inputs, meta) (completed_request_results p)\<rparr>)"

text \<open>
  Modelled from the spec: a call \<open>c\<close> reaches the pipeline. The call is recorded, and
  the completions that the engine made since the previous call take effect. The
  result is the error the engine raises in this call, if any.
\<close>

definition enter ::
  "'p call \<Rightarrow> ('p, 'r) async_pipeline \<Rightarrow> error option \<times> ('p, 'r) async_pipeline" where
  "enter c p =
     (case schedule p of
        [] \<Rightarrow> (None, p\<lparr>calls := calls p @ [c]\<rparr>)
      | (ids, fault) # rest \<Rightarrow>
          (fault, fold complete ids (p\<lparr>schedule := rest, calls := calls p @ [c]\<rparr>)))"

text \<open>
  Modelled from the spec: \<^verbatim>\<open>get_result(id)\<close> hands out the completion record
  stored under \<open>id\<close> and removes it from the pending set, or returns \<open>None\<close> when
  there is none.
\<close>

definition get_result ::
  "nat \<Rightarrow> ('p, 'r) async_pipeline \<Rightarrow> ('r \<times> 'p) option reply \<times> ('p, 'r) async_pipeline" where
  "get_result i p =
     (case enter (GetResult i) p of
        (Some e, q) \<Rightarrow> (Exn e, q)
      | (None, q) \<Rightarrow>
          (Ret (map_of (completed_request_results q) i),
           q\<lparr>completed_request_results := AList.delete i (completed_request_results q)\<rparr>))"

text \<open>
  Modelled from the spec: \<^verbatim>\<open>is_ready()\<close> is the non-blocking capacity check:
  fewer than \<open>num_requests\<close> requests are in flight.
\<close>

definition is_ready :: "('p, 'r) async_pipeline \<Rightarrow> bool reply \<times> ('p, 'r) async_pipeline" where
  "is_ready p =
     (case enter IsReady p of
        (Some e, q) \<Rightarrow> (Exn e, q)
      | (None, q) \<Rightarrow> (Ret (length (in_flight q) < num_requests q), q))"

text \<open>
  Modelled from the spec: \<^verbatim>\<open>submit_data(inputs, id, meta)\<close> puts a request in
  flight; it fails with \<open>EngineBusy\<close> when the capacity is exhausted.
\<close>

definition submit_data ::
  "'p \<Rightarrow> nat \<Rightarrow> 'p \<Rightarrow> ('p, 'r) async_pipeline \<Rightarrow> unit reply \<times> ('p, 'r) async_pipeline" where
  "submit_data inputs i meta p =
     (case enter (SubmitData i inputs) p of
        (Some e, q) \<Rightarrow> (Exn e, q)
      | (None, q) \<Rightarrow>
          if length (in_flight q) < num_requests q
          then (Ret (), q\<lparr>in_flight := in_flight q @ [(i, inputs, meta)]\<rparr>)
          else (Exn EngineBusy, q))"

text \<open>
  Modelled from the spec: \<^verbatim>\<open>await_any()\<close> is the blocking poll. It returns at
  once when a slot is free; otherwise it blocks until a request completes. The engine
  completes every submitted request eventually: when the schedule names no completion
  for this call, the oldest request in flight is the one that completes. With no slot
  and nothing in flight the call never returns.
\<close>

definition await_any :: "('p, 'r) async_pipeline \<Rightarrow> unit reply \<times> ('p, 'r) async_pipeline" where
  "await_any p =
     (case enter AwaitAny p of
        (Some e, q) \<Rightarrow> (Exn e, q)
      | (None, q) \<Rightarrow>
          if length (in_flight q) < num_requests q then (Ret (), q)
          else (case in_flight q of
                  [] \<Rightarrow> (Hang, q)
                | (i, x) # rest \<Rightarrow> (Ret (), complete i q)))"

text \<open>
  Modelled from the spec: \<^verbatim>\<open>await_all()\<close> blocks until every request in flight
  has completed.
\<close>

definition await_all :: "('p, 'r) async_pipeline \<Rightarrow> unit reply \<times> ('p, 'r) async_pipeline" where
  "await_all p =
     (case enter AwaitAll p of
        (Some e, q) \<Rightarrow> (Exn e, q)
      | (None, q) \<Rightarrow> (Ret (), fold complete (map fst (in_flight q)) q))"

text \<open>
  Modelled from the spec: \<^verbatim>\<open>has_completed_request()\<close> tells whether the pending
  set holds a completion record.
\<close>

definition has_completed_request ::
  "('p, 'r) async_pipeline \<Rightarrow> bool reply \<times> ('p, 'r) async_pipeline" where
  "has_completed_request p =
     (case enter HasCompletedRequest p of
        (Some e, q) \<Rightarrow> (Exn e, q)
      | (None, q) \<Rightarrow> (Ret (completed_request_results q \<noteq> []), q))"

subsection \<open>The driver\<close>

text \<open>
  The control points of \<^verbatim>\<open>do_inference\<close>. Each one is left by one call on the
  pipeline, so that every state between two calls is a state of the run.
  \<^item> \<open>While_submit\<close>: the test of the first loop, then \<^verbatim>\<open>get_result\<close> and the
    display of its result;
  \<^item> \<open>If_ready\<close>: \<^verbatim>\<open>if pipeline.is_ready()\<close>;
  \<^item> \<open>Submit\<close>: \<^verbatim>\<open>submit_data\<close> and \<^verbatim>\<open>next_frame_id += 1\<close>;
  \<^item> \<open>Await_any\<close>: the else branch, \<^verbatim>\<open>pipeline.await_any()\<close>;
  \<^item> \<open>Await_all\<close>: \<^verbatim>\<open>pipeline.await_all()\<close> after the first loop;
  \<^item> \<open>While_drain\<close>: the test of the second loop, \<^verbatim>\<open>has_completed_request()\<close>;
  \<^item> \<open>Show_drain\<close>: the body of the second loop;
  \<^item> \<open>Returned\<close>: the function has returned; \<open>Raised e\<close>: it was left by the
    exception \<open>e\<close>; \<open>Blocked\<close>: it hangs in a call that never returns.
\<close>

datatype pc =
    While_submit
  | If_ready
  | Submit
  | Await_any
  | Await_all
  | While_drain
  | Show_drain
  | Returned
  | Raised error
  | Blocked

text \<open>
  The variables of \<^verbatim>\<open>do_inference\<close>; \<open>displayed\<close> is the sequence of frames
  that \<^verbatim>\<open>showarray\<close> has put on the display, oldest first.
\<close>

record ('p, 'r) state =
  pipeline :: "('p, 'r) async_pipeline"
  next_frame_id :: nat
  next_frame_id_to_show :: nat
  displayed :: "'r list"
  pc :: pc

text \<open>
  A call on the pipeline from the driver, which has no \<^verbatim>\<open>try\<close>: an exception
  leaves the function at once, a call that blocks for ever leaves it never.
\<close>

definition call ::
  "(('p, 'r) async_pipeline \<Rightarrow> 'a reply \<times> ('p, 'r) async_pipeline) \<Rightarrow>
   ('a \<Rightarrow> ('p, 'r) state \<Rightarrow> ('p, 'r) state) \<Rightarrow> ('p, 'r) state \<Rightarrow> ('p, 'r) state" where
  "call f k s =
     (case f (pipeline s) of
        (Ret a, q) \<Rightarrow> k a (s\<lparr>pipeline := q\<rparr>)
      | (Exn e, q) \<Rightarrow> s\<lparr>pipeline := q, pc := Raised e\<rparr>
      | (Hang, q) \<Rightarrow> s\<lparr>pipeline := q, pc := Blocked\<rparr>)"

text \<open>
  \<^verbatim>\<open>showarray(frame, display_handle)\<close> replaces the frame on the display by
  \<open>frame\<close>: the frame is the next one in the sequence of frames displayed.
\<close>

definition showarray :: "'r \<Rightarrow> 'r list \<Rightarrow> 'r list" where
  "showarray frame frames = frames @ [frame]"

text \<open>
  \<^verbatim>\<open>if results: result, meta = results; showarray(result, ...); next_frame_id_to_show += 1\<close>
\<close>

definition show_result :: "('r \<times> 'p) option \<Rightarrow> ('p, 'r) state \<Rightarrow> ('p, 'r) state" where
  "show_result results s =
     (case results of
        None \<Rightarrow> s
      | Some (result, meta) \<Rightarrow>
          s\<lparr>displayed := showarray result (displayed s),
            next_frame_id_to_show := next_frame_id_to_show s + 1\<rparr>)"

text \<open>
  One step of \<^verbatim>\<open>do_inference\<close>. The loop test is Python's, on unbounded
  integers: for an empty list \<^verbatim>\<open>len(imagelist) - 1\<close> is \<open>-1\<close>.
\<close>

definition step :: "'p list \<Rightarrow> ('p, 'r) state \<Rightarrow> ('p, 'r) state" where
  "step imagelist s =
     (case pc s of
        While_submit \<Rightarrow>
          if int (next_frame_id s) < int (length imagelist) - 1
          then call (get_result (next_frame_id_to_show s))
                 (\<lambda>results t. (show_result results t)\<lparr>pc := If_ready\<rparr>) s
          else s\<lparr>pc := Await_all\<rparr>
      | If_ready \<Rightarrow>
          call is_ready (\<lambda>ready t. t\<lparr>pc := (if ready then Submit else Await_any)\<rparr>) s
      | Submit \<Rightarrow>
          if next_frame_id s < length imagelist
          then call (submit_data (imagelist ! next_frame_id s) (next_frame_id s)
                       (imagelist ! next_frame_id s))
                 (\<lambda>_ t. t\<lparr>next_frame_id := next_frame_id t + 1, pc := While_submit\<rparr>) s
          else s\<lparr>pc := Raised IndexError\<rparr>
      | Await_any \<Rightarrow> call await_any (\<lambda>_ t. t\<lparr>pc := While_submit\<rparr>) s
      | Await_all \<Rightarrow> call await_all (\<lambda>_ t. t\<lparr>pc := While_drain\<rparr>) s
      | While_drain \<Rightarrow>
          call has_completed_request
            (\<lambda>more t. t\<lparr>pc := (if more then Show_drain else Returned)\<rparr>) s
      | Show_drain \<Rightarrow>
          call (get_result (next_frame_id_to_show s))
            (\<lambda>results t. (show_result results t)\<lparr>pc := While_drain\<rparr>) s
      | Returned \<Rightarrow> s
      | Raised e \<Rightarrow> s
      | Blocked \<Rightarrow> s)"

text \<open>The state in which the first loop is entered.\<close>

definition initial :: "('p \<Rightarrow> 'r) \<Rightarrow> nat \<Rightarrow> event list \<Rightarrow> ('p, 'r) state" where
  "initial m n sched =
     \<lparr>pipeline = CTAsyncPipeline m n sched, next_frame_id = 0, next_frame_id_to_show = 0,
      displayed = [], pc = While_submit\<rparr>"

text \<open>The state of the run after \<open>k\<close> steps.\<close>

definition run :: "'p list \<Rightarrow> ('p \<Rightarrow> 'r) \<Rightarrow> nat \<Rightarrow> event list \<Rightarrow> nat \<Rightarrow> ('p, 'r) state" where
  "run imagelist m n sched k = (step imagelist ^^ k) (initial m n sched)"

text \<open>The function is left by a return or by an exception.\<close>

definition finished :: "('p, 'r) state \<Rightarrow> bool" where
  "finished s = (case pc s of Returned \<Rightarrow> True | Raised e \<Rightarrow> True | _ \<Rightarrow> False)"

text \<open>
  \<^verbatim>\<open>do_inference(imagelist, model, device)\<close>: the state in which the function is
  left, or \<open>None\<close> when it is never left. The capacity \<open>n\<close> and the schedule stand for
  the device and for what the engine does during the run.
\<close>

definition do_inference ::
  "'p list \<Rightarrow> ('p \<Rightarrow> 'r) \<Rightarrow> nat \<Rightarrow> event list \<Rightarrow> ('p, 'r) state option" where
  "do_inference imagelist m n sched =
     while_option (\<lambda>s. \<not> finished s) (step imagelist) (initial m n sched)"

text \<open>The sequence ids and inputs of the submissions among the calls, in order.\<close>

fun submissions :: "'p call list \<Rightarrow> (nat \<times> 'p) list" where
  "submissions [] = []"
| "submissions (SubmitData i x # cs) = (i, x) # submissions cs"
| "submissions (c # cs) = submissions cs"


text \<open>The sequence ids for which the driver asked for a result, in order.\<close>

fun requests :: "'p call list \<Rightarrow> nat list" where
  "requests [] = []"
| "requests (GetResult i # cs) = i # requests cs"
| "requests (c # cs) = requests cs"

text \<open>
  The call on the pipeline that the step of the driver in state \<open>s\<close> makes, if it
  makes one.
\<close>

definition next_call :: "'p list \<Rightarrow> ('p, 'r) state \<Rightarrow> 'p call option" where
  "next_call imagelist s =
     (case pc s of
        While_submit \<Rightarrow>
          if int (next_frame_id s) < int (length imagelist) - 1
          then Some (GetResult (next_frame_id_to_show s)) else None
      | If_ready \<Rightarrow> Some IsReady
      | Submit \<Rightarrow>
          if next_frame_id s < length imagelist
          then Some (SubmitData (next_frame_id s) (imagelist ! next_frame_id s)) else None
      | Await_any \<Rightarrow> Some AwaitAny
      | Await_all \<Rightarrow> Some AwaitAll
      | While_drain \<Rightarrow> Some HasCompletedRequest
      | Show_drain \<Rightarrow> Some (GetResult (next_frame_id_to_show s))
      | Returned \<Rightarrow> None
      | Raised e \<Rightarrow> None
      | Blocked \<Rightarrow> None)"

text \<open>The engine raises no error in the calls that these events belong to.\<close>

definition faultless :: "event list \<Rightarrow> bool" where
  "faultless sched = list_all (\<lambda>ev. snd ev = None) sched"

subsection \<open>Scenarios\<close>

text \<open>
  Capacity 2. The request with sequence id 1 completes before the seventh call (the
  third \<^verbatim>\<open>get_result\<close>), while request 0 is still in flight.
\<close>

definition second_first :: "event list" where
  "second_first =
     [([], None), ([], None), ([], None), ([], None), ([], None), ([], None), ([1], None)]"

text \<open>
  Capacity 2. Requests 0 and 1 complete in time to be displayed, and the engine
  raises an error in the ninth call, the third submission.
\<close>

definition failing_third_submission :: "event list" where
  "failing_third_submission =
     [([], None), ([], None), ([], None), ([0], None), ([], None), ([], None), ([1], None),
      ([], None), ([], Some (EngineError ''engine failure''))]"

text \<open>
  Capacity 2. Requests 1 and 2 complete before request 0 does: 1 before the seventh
  call, 2 before the tenth, 0 before the thirteenth.
\<close>

definition first_last :: "event list" where
  "first_last =
     [([], None), ([], None), ([], None), ([], None), ([], None), ([], None), ([1], None),
      ([], None), ([], None), ([2], None), ([], None), ([], None), ([0], None)]"



subsection \<open>Invariants\<close>

text \<open>
  The bookkeeping of the pipeline while the driver has submitted the inputs with
  sequence ids below \<open>hi\<close> and displayed the results with sequence ids below \<open>lo\<close>:
  the requests in flight and the completion records of the pending set are exactly
  those with ids from \<open>lo\<close> up to \<open>hi\<close>, each once; a request carries the input of
  its id, a completion record the model's result for that input; and no more than
  \<open>n\<close> requests are in flight.
\<close>

definition pipeline_ok ::
  "'p list \<Rightarrow> ('p \<Rightarrow> 'r) \<Rightarrow> nat \<Rightarrow> nat \<Rightarrow> nat \<Rightarrow> ('p, 'r) async_pipeline \<Rightarrow> bool" where
  "pipeline_ok imgs m n lo hi p \<longleftrightarrow>
     model p = m \<and> num_requests p = n \<and>
     distinct (map fst (in_flight p) @ map fst (completed_request_results p)) \<and>
     set (map fst (in_flight p) @ map fst (completed_request_results p)) = {lo..<hi} \<and>
     (\<forall>(i, y) \<in> set (in_flight p). y = (imgs ! i, imgs ! i)) \<and>
     (\<forall>(i, y) \<in> set (completed_request_results p). y = (m (imgs ! i), imgs ! i)) \<and>
     length (in_flight p) \<le> n"

text \<open>
  The invariant of the driver: the cursors, the display and what is known at each
  control point.
\<close>

definition driver_inv :: "'p list \<Rightarrow> ('p \<Rightarrow> 'r) \<Rightarrow> nat \<Rightarrow> ('p, 'r) state \<Rightarrow> bool" where
  "driver_inv imgs m n s \<longleftrightarrow>
     pipeline_ok imgs m n (next_frame_id_to_show s) (next_frame_id s) (pipeline s) \<and>
     next_frame_id_to_show s \<le> next_frame_id s \<and>
     next_frame_id s \<le> length imgs - 1 \<and>
     displayed s = map m (take (next_frame_id_to_show s) imgs) \<and>
     (case pc s of
        If_ready \<Rightarrow> next_frame_id s + 1 < length imgs
      | Submit \<Rightarrow> next_frame_id s + 1 < length imgs \<and> length (in_flight (pipeline s)) < n
      | Await_any \<Rightarrow> next_frame_id s + 1 < length imgs
      | Await_all \<Rightarrow> next_frame_id s = length imgs - 1
      | While_drain \<Rightarrow> next_frame_id s = length imgs - 1 \<and> in_flight (pipeline s) = []
      | Show_drain \<Rightarrow> next_frame_id s = length imgs - 1 \<and> in_flight (pipeline s) = []
      | Returned \<Rightarrow>
          next_frame_id s = length imgs - 1 \<and> next_frame_id_to_show s = next_frame_id s
      | _ \<Rightarrow> True)"

text \<open>
  The invariant under which the function returns: a capacity of at least one and an
  engine that raises nothing in the calls still to come; the function has not been
  left by an exception and does not hang, and the second loop's body is entered only
  with a result outstanding.
\<close>

definition steady :: "'p list \<Rightarrow> ('p \<Rightarrow> 'r) \<Rightarrow> nat \<Rightarrow> ('p, 'r) state \<Rightarrow> bool" where
  "steady imagelist m n s \<longleftrightarrow>
     driver_inv imagelist m n s \<and> 0 < n \<and> faultless (schedule (pipeline s)) \<and>
     (case pc s of
        Raised e \<Rightarrow> False
      | Blocked \<Rightarrow> False
      | Show_drain \<Rightarrow> next_frame_id_to_show s < next_frame_id s
      | _ \<Rightarrow> True)"

text \<open>
  The measure of the steps still to be made. In the first loop every step brings the
  next submission nearer: \<open>d\<close> counts the submissions to come and \<open>w\<close> is 1 when
  the driver has to wait for a slot first. In the second loop \<open>u\<close> counts the results
  to be displayed.
\<close>

definition rank :: "'p list \<Rightarrow> ('p, 'r) state \<Rightarrow> nat" where
  "rank imagelist s =
     (let d = length imagelist - 1 - next_frame_id s;
          w = (if length (in_flight (pipeline s)) < num_requests (pipeline s) then 0 else 1);
          u = next_frame_id s - next_frame_id_to_show s;
          base = 2 * length imagelist + 4
      in case pc s of
           While_submit \<Rightarrow> base + 8 * d + 4 * w + 3
         | If_ready \<Rightarrow> base + 8 * d + 4 * w + 2
         | Await_any \<Rightarrow> base + 8 * d + 5
         | Submit \<Rightarrow> base + 8 * d
         | Await_all \<Rightarrow> 2 * u + 3
         | While_drain \<Rightarrow> 2 * u + 2
         | Show_drain \<Rightarrow> 2 * u + 1
         | _ \<Rightarrow> 0)"

text \<open>
  The submissions recorded so far are the inputs in order, each under its index; their
  number is the submission cursor, or one more when the last submission raised.
\<close>

definition submitted_so_far :: "'p list \<Rightarrow> ('p, 'r) state \<Rightarrow> bool" where
  "submitted_so_far imgs s \<longleftrightarrow>
     submissions (calls (pipeline s)) =
       map (\<lambda>i. (i, imgs ! i)) [0..<length (submissions (calls (pipeline s)))] \<and>
     (length (submissions (calls (pipeline s))) = next_frame_id s \<or>
      length (submissions (calls (pipeline s))) = next_frame_id s + 1 \<and> (\<exists>e. pc s = Raised e))"

section \<open>The pipeline's bookkeeping\<close>

lemma set_delete_subset: "set (AList.delete k al) \<subseteq> set al"
  by (auto simp: AList.delete_eq)

lemma set_update_subset: "set (AList.update k v al) \<subseteq> insert (k, v) (set al)"
  by (induction al) auto

lemma complete_frame [simp]:
  "model (complete i p) = model p" "num_requests (complete i p) = num_requests p"
  "schedule (complete i p) = schedule p" "calls (complete i p) = calls p"
  by (simp_all add: complete_def split: option.splits prod.splits)

lemma complete_length: "length (in_flight (complete i p)) \<le> length (in_flight p)"
  by (simp add: complete_def length_delete_le split: option.splits prod.splits)

lemma complete_ok:
  assumes "pipeline_ok imgs m n lo hi p"
  shows "pipeline_ok imgs m n lo hi (complete i p)"
proof (cases "map_of (in_flight p) i")
  case None
  then show ?thesis using assms by (simp add: complete_def)
next
  case (Some y)
  obtain x meta where y: "y = (x, meta)" by (cases y)
  from Some have mem: "(i, y) \<in> set (in_flight p)" by (rule map_of_SomeD)
  with assms have xy: "x = imgs ! i" "meta = imgs ! i"
    by (auto simp: pipeline_ok_def y)
  from mem have iF: "i \<in> set (map fst (in_flight p))" by force
  with assms have iC: "i \<notin> set (map fst (completed_request_results p))"
    by (auto simp: pipeline_ok_def)
  have q: "complete i p = p\<lparr>in_flight := AList.delete i (in_flight p),
      completed_request_results := AList.update i (m (imgs ! i), imgs ! i) (completed_request_results p)\<rparr>"
    using Some assms by (simp add: complete_def y xy pipeline_ok_def)
  have kF: "map fst (AList.delete i (in_flight p)) = removeAll i (map fst (in_flight p))"
    by (rule delete_keys)
  have kC: "map fst (AList.update i (m (imgs ! i), imgs ! i) (completed_request_results p))
      = map fst (completed_request_results p) @ [i]"
    using iC by (simp add: update_keys)
  have d: "distinct (removeAll i (map fst (in_flight p)) @ map fst (completed_request_results p) @ [i])"
    using assms iC by (auto simp: pipeline_ok_def distinct_removeAll)
  have s: "set (removeAll i (map fst (in_flight p)) @ map fst (completed_request_results p) @ [i]) = {lo..<hi}"
    using assms iF by (auto simp: pipeline_ok_def)
  have cF: "\<forall>(j, y) \<in> set (AList.delete i (in_flight p)). y = (imgs ! j, imgs ! j)"
    using assms set_delete_subset[of i "in_flight p"] by (auto simp: pipeline_ok_def)
  have cC: "\<forall>(j, y) \<in> set (AList.update i (m (imgs ! i), imgs ! i) (completed_request_results p)).
      y = (m (imgs ! j), imgs ! j)"
    using assms set_update_subset[of i "(m (imgs ! i), imgs ! i)" "completed_request_results p"]
    by (auto simp: pipeline_ok_def)
  have l: "length (AList.delete i (in_flight p)) \<le> n"
    using assms length_delete_le[of i "in_flight p"] by (simp add: pipeline_ok_def)
  show ?thesis
    unfolding q pipeline_ok_def using assms d s cF cC l
    by (simp add: kF kC pipeline_ok_def)
qed

lemma fold_complete_frame [simp]:
  "model (fold complete ids p) = model p" "num_requests (fold complete ids p) = num_requests p"
  "schedule (fold complete ids p) = schedule p" "calls (fold complete ids p) = calls p"
  by (induction ids arbitrary: p; simp)+

lemma fold_complete_length: "length (in_flight (fold complete ids p)) \<le> length (in_flight p)"
proof (induction ids arbitrary: p)
  case Nil
  show ?case by simp
next
  case (Cons i ids)
  have "length (in_flight (fold complete ids (complete i p))) \<le> length (in_flight (complete i p))"
    by (rule Cons.IH)
  also have "\<dots> \<le> length (in_flight p)" by (rule complete_length)
  finally show ?case by simp
qed

lemma fold_complete_ok:
  "pipeline_ok imgs m n lo hi p \<Longrightarrow> pipeline_ok imgs m n lo hi (fold complete ids p)"
  by (induction ids arbitrary: p) (simp_all add: complete_ok)


lemma enter_ok:
  "pipeline_ok imgs m n lo hi p \<Longrightarrow> pipeline_ok imgs m n lo hi (snd (enter c p))"
proof -
  assume a: "pipeline_ok imgs m n lo hi p"
  have b: "pipeline_ok imgs m n lo hi (p\<lparr>schedule := rest, calls := cs\<rparr>)" for rest cs
    using a by (simp add: pipeline_ok_def)
  have c: "pipeline_ok imgs m n lo hi (p\<lparr>calls := cs\<rparr>)" for cs
    using a by (simp add: pipeline_ok_def)
  show ?thesis
    by (simp add: enter_def b c fold_complete_ok split: list.splits prod.splits)
qed

lemma enter_length: "length (in_flight (snd (enter c p))) \<le> length (in_flight p)"
proof (cases "schedule p")
  case Nil
  then show ?thesis by (simp add: enter_def)
next
  case (Cons ev rest)
  obtain ids fault where ev: "ev = (ids, fault)" by (cases ev)
  have "length (in_flight (fold complete ids (p\<lparr>schedule := rest, calls := calls p @ [c]\<rparr>)))
      \<le> length (in_flight (p\<lparr>schedule := rest, calls := calls p @ [c]\<rparr>))"
    by (rule fold_complete_length)
  then show ?thesis by (simp add: enter_def Cons ev)
qed

lemma enter_calls: "calls (snd (enter c p)) = calls p @ [c]"
  by (simp add: enter_def split: list.splits prod.splits)

lemma enter_fault:
  "fst (enter c p) = (case schedule p of [] \<Rightarrow> None | ev # rest \<Rightarrow> snd ev)"
  by (simp add: enter_def split: list.splits prod.splits)

lemma enter_schedule: "schedule (snd (enter c p)) = tl (schedule p)"
  by (simp add: enter_def split: list.splits prod.splits)

lemma complete_idle: "in_flight p = [] \<Longrightarrow> complete i p = p"
  by (simp add: complete_def)

lemma fold_complete_idle: "in_flight p = [] \<Longrightarrow> fold complete ids p = p"
  by (induction ids) (simp_all add: complete_idle)

lemma enter_idle:
  "in_flight p = [] \<Longrightarrow>
     in_flight (snd (enter c p)) = [] \<and>
     completed_request_results (snd (enter c p)) = completed_request_results p"
  by (simp add: enter_def fold_complete_idle split: list.splits prod.splits)


lemma get_result_cases:
  assumes ok: "pipeline_ok imgs m n lo hi p" and g: "get_result lo p = (r, q)"
  shows "(\<exists>e. r = Exn e \<and> pipeline_ok imgs m n lo hi q) \<or>
         (r = Ret None \<and> pipeline_ok imgs m n lo hi q) \<or>
         (\<exists>meta. r = Ret (Some (m (imgs ! lo), meta)) \<and> lo < hi \<and>
             pipeline_ok imgs m n (Suc lo) hi q)"
proof -
  define q0 where "q0 = snd (enter (GetResult lo) p)"
  have ok0: "pipeline_ok imgs m n lo hi q0"
    unfolding q0_def using ok by (rule enter_ok)
  show ?thesis
  proof (cases "fst (enter (GetResult lo) p)")
    case (Some e)
    then have "r = Exn e" "q = q0"
      using g by (auto simp: get_result_def q0_def split: prod.splits)
    then show ?thesis using ok0 by simp
  next
    case None
    then have r: "r = Ret (map_of (completed_request_results q0) lo)"
      and q: "q = q0\<lparr>completed_request_results := AList.delete lo (completed_request_results q0)\<rparr>"
      using g by (auto simp: get_result_def q0_def split: prod.splits)
    show ?thesis
    proof (cases "map_of (completed_request_results q0) lo")
      case None
      then have "lo \<notin> fst ` set (completed_request_results q0)"
        by (simp add: map_of_eq_None_iff)
      then have "q = q0" using q by simp
      then show ?thesis using ok0 r None by simp
    next
      case (Some y)
      then have mem: "(lo, y) \<in> set (completed_request_results q0)" by (rule map_of_SomeD)
      then have y: "y = (m (imgs ! lo), imgs ! lo)"
        using ok0 by (auto simp: pipeline_ok_def)
      from mem have inC: "lo \<in> set (map fst (completed_request_results q0))" by force
      then have "lo \<in> {lo..<hi}" using ok0 by (auto simp: pipeline_ok_def)
      then have lt: "lo < hi" by simp
      have notF: "lo \<notin> set (map fst (in_flight q0))"
        using ok0 inC by (auto simp: pipeline_ok_def)
      have keys: "map fst (AList.delete lo (completed_request_results q0))
          = removeAll lo (map fst (completed_request_results q0))"
        by (rule delete_keys)
      have st: "set (map fst (in_flight q0) @ removeAll lo (map fst (completed_request_results q0)))
          = {Suc lo..<hi}"
      proof -
        have "set (map fst (in_flight q0) @ removeAll lo (map fst (completed_request_results q0)))
            = set (map fst (in_flight q0) @ map fst (completed_request_results q0)) - {lo}"
          using notF by auto
        also have "\<dots> = {lo..<hi} - {lo}" using ok0 by (simp add: pipeline_ok_def)
        also have "\<dots> = {Suc lo..<hi}" by auto
        finally show ?thesis .
      qed
      have ds: "distinct (map fst (in_flight q0) @ removeAll lo (map fst (completed_request_results q0)))"
        using ok0 by (auto simp: pipeline_ok_def distinct_removeAll)
      have cC: "\<forall>(j, y) \<in> set (AList.delete lo (completed_request_results q0)).
          y = (m (imgs ! j), imgs ! j)"
        using ok0 set_delete_subset[of lo "completed_request_results q0"]
        by (auto simp: pipeline_ok_def)
      have "pipeline_ok imgs m n (Suc lo) hi q"
        unfolding q pipeline_ok_def using ok0 st ds cC
        by (simp add: keys pipeline_ok_def)
      then show ?thesis using r Some y lt by simp
    qed
  qed
qed

lemma get_result_length:
  "get_result i p = (r, q) \<Longrightarrow> length (in_flight q) \<le> length (in_flight p)"
  using enter_length[of "GetResult i" p]
  by (auto simp: get_result_def split: prod.splits option.splits)

lemma is_ready_cases:
  assumes ok: "pipeline_ok imgs m n lo hi p" and g: "is_ready p = (r, q)"
  shows "pipeline_ok imgs m n lo hi q \<and>
         ((\<exists>e. r = Exn e) \<or> r = Ret (length (in_flight q) < n))"
proof -
  have "q = snd (enter IsReady p)"
    using g by (auto simp: is_ready_def split: prod.splits option.splits)
  moreover have "pipeline_ok imgs m n lo hi (snd (enter IsReady p))"
    using ok by (rule enter_ok)
  ultimately show ?thesis
    using g by (auto simp: is_ready_def pipeline_ok_def split: prod.splits option.splits)
qed

lemma submit_data_cases:
  assumes ok: "pipeline_ok imgs m n lo hi p" and le: "lo \<le> hi"
    and g: "submit_data (imgs ! hi) hi (imgs ! hi) p = (r, q)"
  shows "(\<exists>e. r = Exn e \<and> pipeline_ok imgs m n lo hi q) \<or>
         (r = Ret () \<and> pipeline_ok imgs m n lo (Suc hi) q)"
proof -
  define q0 where "q0 = snd (enter (SubmitData hi (imgs ! hi)) p)"
  have ok0: "pipeline_ok imgs m n lo hi q0"
    unfolding q0_def using ok by (rule enter_ok)
  show ?thesis
  proof (cases "fst (enter (SubmitData hi (imgs ! hi)) p) = None \<and> length (in_flight q0) < num_requests q0")
    case False
    then have "(\<exists>e. r = Exn e) \<and> q = q0"
      using g by (auto simp: submit_data_def q0_def split: prod.splits option.splits if_splits)
    then show ?thesis using ok0 by auto
  next
    case True
    then have r: "r = Ret ()" and q: "q = q0\<lparr>in_flight := in_flight q0 @ [(hi, imgs ! hi, imgs ! hi)]\<rparr>"
      using g by (auto simp: submit_data_def q0_def split: prod.splits option.splits if_splits)
    have st: "set (map fst (in_flight q0) @ map fst (completed_request_results q0)) = {lo..<hi}"
      using ok0 by (simp add: pipeline_ok_def)
    then have fresh: "hi \<notin> set (map fst (in_flight q0))" "hi \<notin> set (map fst (completed_request_results q0))"
      by auto
    have "{lo..<Suc hi} = insert hi {lo..<hi}" using le by auto
    then have st': "insert hi (set (map fst (in_flight q0) @ map fst (completed_request_results q0))) = {lo..<Suc hi}"
      using st by simp
    have "pipeline_ok imgs m n lo (Suc hi) q"
      unfolding q pipeline_ok_def using ok0 True fresh st'
      by (auto simp: pipeline_ok_def)
    then show ?thesis using r by simp
  qed
qed


lemma complete_head_length:
  "in_flight p = (i, x) # rest \<Longrightarrow> length (in_flight (complete i p)) < length (in_flight p)"
  using length_delete_le[of i rest]
  by (cases x) (simp add: complete_def)

lemma await_any_cases:
  assumes ok: "pipeline_ok imgs m n lo hi p" and g: "await_any p = (r, q)"
  shows "pipeline_ok imgs m n lo hi q \<and>
         ((\<exists>e. r = Exn e) \<or> (r = Ret () \<and> length (in_flight q) < n) \<or> (r = Hang \<and> n = 0))"
proof -
  define q0 where "q0 = snd (enter AwaitAny p)"
  have ok0: "pipeline_ok imgs m n lo hi q0"
    unfolding q0_def using ok by (rule enter_ok)
  have n: "num_requests q0 = n" and le: "length (in_flight q0) \<le> n"
    using ok0 by (simp_all add: pipeline_ok_def)
  show ?thesis
  proof (cases "fst (enter AwaitAny p)")
    case (Some e)
    then have "r = Exn e" "q = q0"
      using g by (auto simp: await_any_def q0_def split: prod.splits)
    then show ?thesis using ok0 by simp
  next
    case None
    show ?thesis
    proof (cases "length (in_flight q0) < n")
      case True
      then have "r = Ret ()" "q = q0"
        using g None n by (auto simp: await_any_def q0_def split: prod.splits)
      then show ?thesis using ok0 True by simp
    next
      case full: False
      show ?thesis
      proof (cases "in_flight q0")
        case Nil
        then have "r = Hang" "q = q0"
          using g None n full by (auto simp: await_any_def q0_def split: prod.splits)
        moreover have "n = 0" using full Nil by simp
        ultimately show ?thesis using ok0 by simp
      next
        case (Cons ix rest)
        obtain i x where ix: "ix = (i, x)" by (cases ix)
        have "r = Ret ()" "q = complete i q0"
          using g None n full Cons ix by (auto simp: await_any_def q0_def split: prod.splits)
        moreover have "pipeline_ok imgs m n lo hi (complete i q0)"
          using ok0 by (rule complete_ok)
        moreover have "length (in_flight (complete i q0)) < n"
          using complete_head_length[of q0 i x rest] Cons ix le by simp
        ultimately show ?thesis by simp
      qed
    qed
  qed
qed

lemma complete_keys:
  "fst ` set (in_flight (complete i p)) \<subseteq> fst ` set (in_flight p) - {i}"
proof (cases "map_of (in_flight p) i")
  case None
  then have "i \<notin> fst ` set (in_flight p)" by (simp add: map_of_eq_None_iff)
  then show ?thesis using None by (auto simp: complete_def)
next
  case (Some y)
  have "set (map fst (AList.delete i (in_flight p))) = set (map fst (in_flight p)) - {i}"
    by (simp add: delete_keys)
  then show ?thesis using Some by (cases y) (simp add: complete_def)
qed

lemma fold_complete_all:
  "fst ` set (in_flight p) \<subseteq> set ids \<Longrightarrow> in_flight (fold complete ids p) = []"
proof (induction ids arbitrary: p)
  case Nil
  then show ?case by simp
next
  case (Cons i ids)
  have "fst ` set (in_flight (complete i p)) \<subseteq> set ids"
    using complete_keys[of i p] Cons.prems by auto
  then show ?case using Cons.IH by simp
qed

lemma await_all_cases:
  assumes ok: "pipeline_ok imgs m n lo hi p" and g: "await_all p = (r, q)"
  shows "pipeline_ok imgs m n lo hi q \<and> ((\<exists>e. r = Exn e) \<or> (r = Ret () \<and> in_flight q = []))"
proof -
  define q0 where "q0 = snd (enter AwaitAll p)"
  have ok0: "pipeline_ok imgs m n lo hi q0"
    unfolding q0_def using ok by (rule enter_ok)
  show ?thesis
  proof (cases "fst (enter AwaitAll p)")
    case (Some e)
    then have "r = Exn e" "q = q0"
      using g by (auto simp: await_all_def q0_def split: prod.splits)
    then show ?thesis using ok0 by simp
  next
    case None
    then have "r = Ret ()" "q = fold complete (map fst (in_flight q0)) q0"
      using g by (auto simp: await_all_def q0_def split: prod.splits)
    moreover have "pipeline_ok imgs m n lo hi (fold complete (map fst (in_flight q0)) q0)"
      using ok0 by (rule fold_complete_ok)
    moreover have "in_flight (fold complete (map fst (in_flight q0)) q0) = []"
      by (rule fold_complete_all) simp
    ultimately show ?thesis by simp
  qed
qed

lemma has_completed_request_cases:
  assumes ok: "pipeline_ok imgs m n lo hi p" and g: "has_completed_request p = (r, q)"
  shows "pipeline_ok imgs m n lo hi q \<and>
         ((\<exists>e. r = Exn e) \<or> r = Ret (completed_request_results q \<noteq> [])) \<and>
         (in_flight p = [] \<longrightarrow> in_flight q = [] \<and> completed_request_results q = completed_request_results p)"
proof -
  have q: "q = snd (enter HasCompletedRequest p)"
    using g by (auto simp: has_completed_request_def split: prod.splits option.splits)
  have "pipeline_ok imgs m n lo hi (snd (enter HasCompletedRequest p))"
    using ok by (rule enter_ok)
  then show ?thesis
    using g q enter_idle[of p HasCompletedRequest]
    by (auto simp: has_completed_request_def split: prod.splits option.splits)
qed

lemma get_result_idle:
  assumes "in_flight p = []" and "get_result i p = (r, q)"
  shows "in_flight q = []"
  using assms enter_idle[of p "GetResult i"]
  by (auto simp: get_result_def split: prod.splits option.splits)



lemma driver_inv_initial: "driver_inv imgs m n (initial m n sched)"
  by (simp add: driver_inv_def initial_def CTAsyncPipeline_def pipeline_ok_def)

lemma shown_one_more:
  assumes "displayed s = map m (take lo imgs)" and "lo < length imgs"
  shows "displayed s @ [m (imgs ! lo)] = map m (take (Suc lo) imgs)"
  using assms by (simp add: take_Suc_conv_app_nth)

lemma inv_show:
  assumes inv: "driver_inv imgs m n s"
    and g: "get_result (next_frame_id_to_show s) (pipeline s) = (r, q)"
  shows "(\<exists>e. r = Exn e \<and> driver_inv imgs m n (s\<lparr>pipeline := q, pc := Raised e\<rparr>)) \<or>
         (\<exists>res. r = Ret res \<and>
            (\<forall>c. (c = If_ready \<longrightarrow> next_frame_id s + 1 < length imgs) \<and>
                 (c = While_drain \<longrightarrow> next_frame_id s = length imgs - 1 \<and> in_flight q = []) \<and>
                 c \<noteq> Submit \<and> c \<noteq> Await_any \<and> c \<noteq> Await_all \<and> c \<noteq> Show_drain \<and> c \<noteq> Returned
               \<longrightarrow> driver_inv imgs m n ((show_result res (s\<lparr>pipeline := q\<rparr>))\<lparr>pc := c\<rparr>)))"
proof -
  let ?lo = "next_frame_id_to_show s" and ?hi = "next_frame_id s"
  have ok: "pipeline_ok imgs m n ?lo ?hi (pipeline s)"
    and le: "?lo \<le> ?hi" and hi: "?hi \<le> length imgs - 1"
    and dis: "displayed s = map m (take ?lo imgs)"
    using inv by (simp_all add: driver_inv_def)
  from get_result_cases[OF ok g]
  consider (exn) e where "r = Exn e" "pipeline_ok imgs m n ?lo ?hi q"
    | (miss) "r = Ret None" "pipeline_ok imgs m n ?lo ?hi q"
    | (hit) meta where "r = Ret (Some (m (imgs ! ?lo), meta))" "?lo < ?hi"
        "pipeline_ok imgs m n (Suc ?lo) ?hi q"
    by blast
  then show ?thesis
  proof cases
    case exn
    then show ?thesis using le hi dis by (simp add: driver_inv_def)
  next
    case miss
    then show ?thesis using le hi dis
      by (auto simp: driver_inv_def show_result_def showarray_def split: pc.splits)
  next
    case hit
    have "?lo < length imgs" using hit(2) hi by simp
    then have "displayed s @ [m (imgs ! ?lo)] = map m (take (Suc ?lo) imgs)"
      using dis by (rule shown_one_more[rotated])
    then show ?thesis using hit le hi
      by (auto simp: driver_inv_def show_result_def showarray_def split: pc.splits)
  qed
qed


lemma driver_inv_step:
  assumes inv: "driver_inv imgs m n s"
  shows "driver_inv imgs m n (step imgs s)"
proof -
  let ?lo = "next_frame_id_to_show s" and ?hi = "next_frame_id s"
  have ok: "pipeline_ok imgs m n ?lo ?hi (pipeline s)"
    and le: "?lo \<le> ?hi" and hi: "?hi \<le> length imgs - 1"
    and dis: "displayed s = map m (take ?lo imgs)"
    using inv by (simp_all add: driver_inv_def)
  show ?thesis
  proof (cases "pc s")
    case While_submit
    show ?thesis
    proof (cases "int ?hi < int (length imgs) - 1")
      case False
      then have "?hi = length imgs - 1" using hi by linarith
      then show ?thesis using inv False While_submit
        by (simp add: step_def driver_inv_def)
    next
      case True
      then have lt: "?hi + 1 < length imgs" by linarith
      obtain r q where g: "get_result ?lo (pipeline s) = (r, q)" by (cases "get_result ?lo (pipeline s)")
      from inv_show[OF inv g] show ?thesis
      proof (elim disjE exE conjE)
        fix e assume "r = Exn e" "driver_inv imgs m n (s\<lparr>pipeline := q, pc := Raised e\<rparr>)"
        then show ?thesis using While_submit True g by (simp add: step_def call_def)
      next
        fix res assume r: "r = Ret res"
          and all: "\<forall>c. (c = If_ready \<longrightarrow> ?hi + 1 < length imgs) \<and>
                 (c = While_drain \<longrightarrow> ?hi = length imgs - 1 \<and> in_flight q = []) \<and>
                 c \<noteq> Submit \<and> c \<noteq> Await_any \<and> c \<noteq> Await_all \<and> c \<noteq> Show_drain \<and> c \<noteq> Returned
               \<longrightarrow> driver_inv imgs m n ((show_result res (s\<lparr>pipeline := q\<rparr>))\<lparr>pc := c\<rparr>)"
        from all lt have "driver_inv imgs m n ((show_result res (s\<lparr>pipeline := q\<rparr>))\<lparr>pc := If_ready\<rparr>)"
          by simp
        then show ?thesis using While_submit True g r by (simp add: step_def call_def)
      qed
    qed
  next
    case If_ready
    then have lt: "?hi + 1 < length imgs" using inv by (simp add: driver_inv_def)
    obtain r q where g: "is_ready (pipeline s) = (r, q)" by (cases "is_ready (pipeline s)")
    from is_ready_cases[OF ok g]
    have okq: "pipeline_ok imgs m n ?lo ?hi q"
      and r: "(\<exists>e. r = Exn e) \<or> r = Ret (length (in_flight q) < n)" by simp_all
    from r show ?thesis
    proof (elim disjE exE)
      fix e assume "r = Exn e"
      then show ?thesis using If_ready g okq le hi dis
        by (simp add: step_def call_def driver_inv_def)
    next
      assume "r = Ret (length (in_flight q) < n)"
      then show ?thesis using If_ready g okq le hi dis lt
        by (simp add: step_def call_def driver_inv_def)
    qed
  next
    case Submit
    then have lt: "?hi + 1 < length imgs" using inv by (simp add: driver_inv_def)
    then have inr: "?hi < length imgs" by simp
    obtain r q where g: "submit_data (imgs ! ?hi) ?hi (imgs ! ?hi) (pipeline s) = (r, q)"
      by (cases "submit_data (imgs ! ?hi) ?hi (imgs ! ?hi) (pipeline s)")
    from submit_data_cases[OF ok le g] show ?thesis
    proof (elim disjE exE conjE)
      fix e assume "r = Exn e" "pipeline_ok imgs m n ?lo ?hi q"
      then show ?thesis using Submit g le hi dis inr
        by (simp add: step_def call_def driver_inv_def)
    next
      assume "r = Ret ()" "pipeline_ok imgs m n ?lo (Suc ?hi) q"
      then show ?thesis using Submit g le dis lt inr
        by (simp add: step_def call_def driver_inv_def)
    qed
  next
    case Await_any
    then have lt: "?hi + 1 < length imgs" using inv by (simp add: driver_inv_def)
    obtain r q where g: "await_any (pipeline s) = (r, q)" by (cases "await_any (pipeline s)")
    from await_any_cases[OF ok g]
    have okq: "pipeline_ok imgs m n ?lo ?hi q" by simp
    show ?thesis
      using Await_any g okq le hi dis
      by (cases r) (simp_all add: step_def call_def driver_inv_def)
  next
    case Await_all
    then have eq: "?hi = length imgs - 1" using inv by (simp add: driver_inv_def)
    obtain r q where g: "await_all (pipeline s) = (r, q)" by (cases "await_all (pipeline s)")
    from await_all_cases[OF ok g]
    have okq: "pipeline_ok imgs m n ?lo ?hi q"
      and r: "(\<exists>e. r = Exn e) \<or> (r = Ret () \<and> in_flight q = [])" by simp_all
    from r show ?thesis
      using Await_all g okq le hi dis eq
      by (auto simp: step_def call_def driver_inv_def)
  next
    case While_drain
    then have eq: "?hi = length imgs - 1" and idle: "in_flight (pipeline s) = []"
      using inv by (simp_all add: driver_inv_def)
    obtain r q where g: "has_completed_request (pipeline s) = (r, q)"
      by (cases "has_completed_request (pipeline s)")
    from has_completed_request_cases[OF ok g] idle
    have okq: "pipeline_ok imgs m n ?lo ?hi q"
      and r: "(\<exists>e. r = Exn e) \<or> r = Ret (completed_request_results q \<noteq> [])"
      and idleq: "in_flight q = []" by auto
    have "completed_request_results q = [] \<Longrightarrow> ?lo = ?hi"
    proof -
      assume "completed_request_results q = []"
      then have "{?lo..<?hi} = {}" using okq idleq by (simp add: pipeline_ok_def)
      then show ?thesis using le by simp
    qed
    with r show ?thesis
      using While_drain g okq le hi dis eq idleq
      by (auto simp: step_def call_def driver_inv_def)
  next
    case Show_drain
    then have eq: "?hi = length imgs - 1" and idle: "in_flight (pipeline s) = []"
      using inv by (simp_all add: driver_inv_def)
    obtain r q where g: "get_result ?lo (pipeline s) = (r, q)" by (cases "get_result ?lo (pipeline s)")
    have idleq: "in_flight q = []" using idle g by (rule get_result_idle)
    from inv_show[OF inv g] show ?thesis
    proof (elim disjE exE conjE)
      fix e assume "r = Exn e" "driver_inv imgs m n (s\<lparr>pipeline := q, pc := Raised e\<rparr>)"
      then show ?thesis using Show_drain g by (simp add: step_def call_def)
    next
      fix res assume r: "r = Ret res"
        and all: "\<forall>c. (c = If_ready \<longrightarrow> ?hi + 1 < length imgs) \<and>
               (c = While_drain \<longrightarrow> ?hi = length imgs - 1 \<and> in_flight q = []) \<and>
               c \<noteq> Submit \<and> c \<noteq> Await_any \<and> c \<noteq> Await_all \<and> c \<noteq> Show_drain \<and> c \<noteq> Returned
             \<longrightarrow> driver_inv imgs m n ((show_result res (s\<lparr>pipeline := q\<rparr>))\<lparr>pc := c\<rparr>)"
      from all eq idleq
      have "driver_inv imgs m n ((show_result res (s\<lparr>pipeline := q\<rparr>))\<lparr>pc := While_drain\<rparr>)"
        by simp
      then show ?thesis using Show_drain g r by (simp add: step_def call_def)
    qed
  next
    case Returned
    then show ?thesis using inv by (simp add: step_def)
  next
    case (Raised e)
    then show ?thesis using inv by (simp add: step_def)
  next
    case Blocked
    then show ?thesis using inv by (simp add: step_def)
  qed
qed

lemma driver_inv_run: "driver_inv imgs m n (run imgs m n sched k)"
  by (induction k) (simp_all add: run_def driver_inv_initial driver_inv_step)

section \<open>Runs\<close>

lemma step_finished: "finished s \<Longrightarrow> step imgs s = s"
  by (cases "pc s") (simp_all add: finished_def step_def)

lemma funpow_step_finished: "finished s \<Longrightarrow> (step imgs ^^ j) s = s"
  by (induction j) (simp_all add: step_finished)

lemma run_add: "run imgs m n sched (k + j) = (step imgs ^^ j) (run imgs m n sched k)"
  by (simp add: run_def funpow_add add.commute)

lemma run_Suc: "run imgs m n sched (Suc k) = step imgs (run imgs m n sched k)"
  by (simp add: run_def)

lemma run_finished_le:
  assumes "finished (run imgs m n sched k)" and "k \<le> k'"
  shows "run imgs m n sched k' = run imgs m n sched k"
proof -
  from assms(2) obtain j where "k' = k + j" by (auto simp: le_iff_add)
  then show ?thesis using assms(1) by (simp add: run_add funpow_step_finished)
qed

lemma do_inference_run:
  assumes fin: "finished (run imgs m n sched k)"
  shows "do_inference imgs m n sched = Some (run imgs m n sched k)"
proof -
  let ?P = "\<lambda>j. \<not> \<not> finished ((step imgs ^^ j) (initial m n sched))"
  have ex: "\<exists>j. ?P j" using fin by (auto simp: run_def)
  have P: "?P (LEAST j. ?P j)" using fin by (intro LeastI[of ?P k]) (simp add: run_def)
  have le: "(LEAST j. ?P j) \<le> k" using fin by (intro Least_le) (simp add: run_def)
  have "run imgs m n sched k = run imgs m n sched (LEAST j. ?P j)"
    using P le by (intro run_finished_le) (simp_all add: run_def)
  then show ?thesis
    using ex by (simp add: do_inference_def while_option_def run_def)
qed

lemma do_inference_SomeD:
  assumes "do_inference imgs m n sched = Some s"
  shows "\<exists>k. s = run imgs m n sched k \<and> finished s"
proof -
  have "\<not> \<not> finished s"
    using assms unfolding do_inference_def by (rule while_option_stop)
  moreover have "\<exists>k. s = (step imgs ^^ k) (initial m n sched)"
    using assms unfolding do_inference_def while_option_def by (auto split: if_splits)
  ultimately show ?thesis by (auto simp: run_def)
qed

lemmas exec_defs = run_def initial_def CTAsyncPipeline_def step_def call_def show_result_def
  showarray_def get_result_def is_ready_def submit_data_def await_any_def await_all_def
  has_completed_request_def enter_def complete_def AList.delete_eq

section \<open>What a step does\<close>

lemma show_result_frame [simp]:
  "pc (show_result r t) = pc t" "pipeline (show_result r t) = pipeline t"
  "next_frame_id (show_result r t) = next_frame_id t"
  by (simp_all add: show_result_def showarray_def split: option.splits prod.splits)

lemma get_result_calls: "calls (snd (get_result i p)) = calls p @ [GetResult i]"
  using enter_calls[of "GetResult i" p]
  by (auto simp: get_result_def split: prod.splits option.splits)

lemma is_ready_calls: "calls (snd (is_ready p)) = calls p @ [IsReady]"
  using enter_calls[of IsReady p]
  by (auto simp: is_ready_def split: prod.splits option.splits)

lemma submit_data_calls: "calls (snd (submit_data x i y p)) = calls p @ [SubmitData i x]"
  using enter_calls[of "SubmitData i x" p]
  by (auto simp: submit_data_def split: prod.splits option.splits)

lemma await_any_calls: "calls (snd (await_any p)) = calls p @ [AwaitAny]"
  using enter_calls[of AwaitAny p]
  by (auto simp: await_any_def split: prod.splits option.splits list.splits)

lemma await_all_calls: "calls (snd (await_all p)) = calls p @ [AwaitAll]"
  using enter_calls[of AwaitAll p]
  by (auto simp: await_all_def split: prod.splits option.splits)

lemma has_completed_request_calls:
  "calls (snd (has_completed_request p)) = calls p @ [HasCompletedRequest]"
  using enter_calls[of HasCompletedRequest p]
  by (auto simp: has_completed_request_def split: prod.splits option.splits)

lemma call_pipeline: "pipeline (call f k s) = snd (f (pipeline s))"
  if "\<And>a t. pipeline (k a t) = pipeline t"
  using that by (simp add: call_def split: prod.splits reply.splits)

lemma step_calls:
  "calls (pipeline (step imgs s)) =
     calls (pipeline s) @ (case next_call imgs s of None \<Rightarrow> [] | Some c \<Rightarrow> [c])"
  by (cases "pc s")
    (simp_all add: step_def next_call_def call_pipeline get_result_calls is_ready_calls
      submit_data_calls await_any_calls await_all_calls has_completed_request_calls)

lemma driver_inv_length:
  assumes "driver_inv imgs m n s"
  shows "length (displayed s) = next_frame_id_to_show s"
proof -
  have "next_frame_id_to_show s \<le> length imgs - 1"
    and "displayed s = map m (take (next_frame_id_to_show s) imgs)"
    using assms by (simp_all add: driver_inv_def)
  then show ?thesis by simp
qed

lemma pipeline_ok_count:
  assumes "pipeline_ok imgs m n lo hi p"
  shows "length (in_flight p) + length (completed_request_results p) = hi - lo"
proof -
  let ?ks = "map fst (in_flight p) @ map fst (completed_request_results p)"
  have "distinct ?ks" and "set ?ks = {lo..<hi}"
    using assms by (simp_all add: pipeline_ok_def)
  then have "length ?ks = card {lo..<hi}" by (metis distinct_card)
  then show ?thesis by simp
qed

lemma step_to_Submit:
  assumes "pc (step imgs s) = Submit"
  shows "pc s = If_ready \<and> fst (is_ready (pipeline s)) = Ret True"
proof (cases "pc s")
  case If_ready
  then show ?thesis using assms
    by (auto simp: step_def call_def split: prod.splits reply.splits if_splits)
qed (use assms in \<open>auto simp: step_def call_def split: prod.splits reply.splits if_splits\<close>)

lemma requests_snoc:
  "requests (cs @ [c]) = requests cs @ (case c of GetResult i \<Rightarrow> [i] | _ \<Rightarrow> [])"
  by (induction cs rule: requests.induct) (simp_all split: call.splits)

lemma submissions_snoc:
  "submissions (cs @ [c]) = submissions cs @ (case c of SubmitData i x \<Rightarrow> [(i, x)] | _ \<Rightarrow> [])"
  by (induction cs rule: submissions.induct) (simp_all split: call.splits)

lemma step_requests:
  "requests (calls (pipeline (step imgs s))) = requests (calls (pipeline s)) \<or>
   requests (calls (pipeline (step imgs s))) =
     requests (calls (pipeline s)) @ [next_frame_id_to_show s]"
  by (cases "pc s") (simp_all add: step_calls next_call_def requests_snoc)

lemma step_cursor:
  "next_frame_id_to_show (step imgs s) = next_frame_id_to_show s \<and>
     displayed (step imgs s) = displayed s \<or>
   next_frame_id_to_show (step imgs s) = next_frame_id_to_show s + 1 \<and>
     length (displayed (step imgs s)) = length (displayed s) + 1"
  by (cases "pc s")
    (auto simp: step_def call_def show_result_def showarray_def
       split: prod.splits reply.splits option.splits)

section \<open>Failing calls and short inputs\<close>

lemma enter_raises:
  assumes "schedule p = (ids, Some e) # rest"
  shows "fst (enter c p) = Some e" "schedule (snd (enter c p)) = rest"
  using assms by (simp_all add: enter_def)

lemma step_raises:
  assumes sched: "schedule (pipeline s) = (ids, Some e) # rest"
    and nc: "next_call imgs s = Some c"
  shows "step imgs s = s\<lparr>pipeline := snd (enter c (pipeline s)), pc := Raised e\<rparr>"
proof -
  have f: "fst (enter c' (pipeline s)) = Some e" for c'
    using sched by (rule enter_raises)
  have g: "enter c' (pipeline s) = (Some e, snd (enter c' (pipeline s)))" for c'
    using f[of c'] by (cases "enter c' (pipeline s)") simp
  show ?thesis
  proof (cases "pc s")
    case While_submit
    then show ?thesis using nc
      by (auto simp: step_def next_call_def call_def get_result_def split: if_splits)
        (subst g, simp)
  next
    case If_ready
    then show ?thesis using nc
      by (auto simp: step_def next_call_def call_def is_ready_def) (subst g, simp)
  next
    case Submit
    then show ?thesis using nc
      by (auto simp: step_def next_call_def call_def submit_data_def split: if_splits)
        (subst g, simp)
  next
    case Await_any
    then show ?thesis using nc
      by (auto simp: step_def next_call_def call_def await_any_def) (subst g, simp)
  next
    case Await_all
    then show ?thesis using nc
      by (auto simp: step_def next_call_def call_def await_all_def) (subst g, simp)
  next
    case While_drain
    then show ?thesis using nc
      by (auto simp: step_def next_call_def call_def has_completed_request_def) (subst g, simp)
  next
    case Show_drain
    then show ?thesis using nc
      by (auto simp: step_def next_call_def call_def get_result_def) (subst g, simp)
  qed (use nc in \<open>simp_all add: next_call_def\<close>)
qed

lemma short_run:
  assumes len: "length imgs \<le> 1" and ok: "faultless (take 2 sched)"
  shows "run imgs m n sched 3 =
     \<lparr>pipeline = \<lparr>model = m, num_requests = n, in_flight = [], completed_request_results = [],
        schedule = drop 2 sched, calls = [AwaitAll, HasCompletedRequest]\<rparr>,
      next_frame_id = 0, next_frame_id_to_show = 0, displayed = [], pc = Returned\<rparr>"
proof -
  show ?thesis
  proof (cases sched)
    case Nil
    then show ?thesis using len
      by (simp add: exec_defs eval_nat_numeral)
  next
    case (Cons e1 rest)
    obtain ids1 where e1: "e1 = (ids1, None)"
      using ok Cons by (cases e1) (simp add: faultless_def)
    show ?thesis
    proof (cases rest)
      case Nil
      then show ?thesis using Cons e1 len
        by (simp add: exec_defs eval_nat_numeral fold_complete_idle)
    next
      case (Cons e2 rest2)
      obtain ids2 where e2: "e2 = (ids2, None)"
        using ok Cons \<open>sched = e1 # rest\<close> by (cases e2) (simp add: faultless_def)
      show ?thesis using Cons \<open>sched = e1 # rest\<close> e1 e2 len
        by (simp add: exec_defs eval_nat_numeral fold_complete_idle)
    qed
  qed
qed

lemma short_run_finished:
  assumes "length imgs \<le> 1" and "faultless (take 2 sched)"
  shows "finished (run imgs m n sched 3)"
  by (simp add: short_run[OF assms] finished_def)

section \<open>Termination\<close>

lemma faultless_tl: "faultless xs \<Longrightarrow> faultless (tl xs)"
  by (cases xs) (simp_all add: faultless_def)

lemma enter_faultless:
  assumes "faultless (schedule p)"
  shows "enter c p = (None, snd (enter c p))" "faultless (schedule (snd (enter c p)))"
proof -
  have "fst (enter c p) = None"
    using assms by (cases "schedule p") (auto simp: enter_fault faultless_def)
  then show "enter c p = (None, snd (enter c p))" by (cases "enter c p") simp
  show "faultless (schedule (snd (enter c p)))"
    using assms by (simp add: enter_schedule faultless_tl)
qed

lemma enter_num_requests: "num_requests (snd (enter c p)) = num_requests p"
  by (simp add: enter_def split: list.splits prod.splits)

lemma steady_initial:
  "0 < n \<Longrightarrow> faultless sched \<Longrightarrow> steady imgs m n (initial m n sched)"
  by (simp add: steady_def driver_inv_initial) (simp add: initial_def CTAsyncPipeline_def)


lemma steady_step:
  assumes st: "steady imgs m n s" and nf: "\<not> finished s"
  shows "steady imgs m n (step imgs s) \<and> rank imgs (step imgs s) < rank imgs s"
proof -
  let ?lo = "next_frame_id_to_show s" and ?hi = "next_frame_id s" and ?p = "pipeline s"
  have inv: "driver_inv imgs m n s" and n: "0 < n" and fl: "faultless (schedule ?p)"
    using st by (simp_all add: steady_def)
  have inv': "driver_inv imgs m n (step imgs s)" using inv by (rule driver_inv_step)
  have ok: "pipeline_ok imgs m n ?lo ?hi ?p"
    and le: "?lo \<le> ?hi" and hi: "?hi \<le> length imgs - 1"
    using inv by (simp_all add: driver_inv_def)
  have np: "num_requests ?p = n" using ok by (simp add: pipeline_ok_def)
  have cnt: "length (in_flight ?p) + length (completed_request_results ?p) = ?hi - ?lo"
    using ok by (rule pipeline_ok_count)
  define q0 where "q0 c = snd (enter c ?p)" for c
  have en: "enter c ?p = (None, q0 c)" for c
    unfolding q0_def using fl by (rule enter_faultless)
  have fl0: "faultless (schedule (q0 c))" for c
    unfolding q0_def using fl by (rule enter_faultless)
  have ok0: "pipeline_ok imgs m n ?lo ?hi (q0 c)" for c
    unfolding q0_def using ok by (rule enter_ok)
  have n0: "num_requests (q0 c) = n" for c using ok0[of c] by (simp add: pipeline_ok_def)
  have len0: "length (in_flight (q0 c)) \<le> length (in_flight ?p)" for c
    unfolding q0_def by (rule enter_length)
  show ?thesis
  proof (cases "pc s")
    case While_submit
    show ?thesis
    proof (cases "int ?hi < int (length imgs) - 1")
      case True
      have stp: "step imgs s = (show_result (map_of (completed_request_results (q0 (GetResult ?lo))) ?lo)
          (s\<lparr>pipeline := (q0 (GetResult ?lo))\<lparr>completed_request_results :=
              AList.delete ?lo (completed_request_results (q0 (GetResult ?lo)))\<rparr>\<rparr>))\<lparr>pc := If_ready\<rparr>"
        using While_submit True by (simp add: step_def call_def get_result_def en)
      have "steady imgs m n (step imgs s)"
        using inv' n fl0[of "GetResult ?lo"] unfolding steady_def by (simp add: stp)
      moreover have "rank imgs (step imgs s) < rank imgs s"
        using While_submit len0[of "GetResult ?lo"] n0[of "GetResult ?lo"] np
        by (simp add: stp rank_def)
      ultimately show ?thesis by simp
    next
      case False
      have stp: "step imgs s = s\<lparr>pc := Await_all\<rparr>"
        using While_submit False by (simp add: step_def)
      have "steady imgs m n (step imgs s)"
        using inv' n fl unfolding steady_def by (simp add: stp)
      moreover have "rank imgs (step imgs s) < rank imgs s"
        using While_submit hi le by (simp add: stp rank_def)
      ultimately show ?thesis by simp
    qed
  next
    case If_ready
    have stp: "step imgs s = s\<lparr>pipeline := q0 IsReady,
        pc := (if length (in_flight (q0 IsReady)) < n then Submit else Await_any)\<rparr>"
      using If_ready by (simp add: step_def call_def is_ready_def en n0)
    have "steady imgs m n (step imgs s)"
      using inv' n fl0[of IsReady] unfolding steady_def by (simp add: stp)
    moreover have "rank imgs (step imgs s) < rank imgs s"
      using If_ready len0[of IsReady] n0[of IsReady] np
      by (simp add: stp rank_def)
    ultimately show ?thesis by simp
  next
    case Submit
    then have lt: "?hi + 1 < length imgs" and free: "length (in_flight ?p) < n"
      using inv by (simp_all add: driver_inv_def)
    let ?c = "SubmitData ?hi (imgs ! ?hi)"
    have free0: "length (in_flight (q0 ?c)) < n" using free len0[of ?c] by simp
    have stp: "step imgs s = s\<lparr>pipeline := (q0 ?c)\<lparr>in_flight := in_flight (q0 ?c) @ [(?hi, imgs ! ?hi, imgs ! ?hi)]\<rparr>,
        next_frame_id := ?hi + 1, pc := While_submit\<rparr>"
      using Submit lt free0 by (simp add: step_def call_def submit_data_def en n0)
    have "steady imgs m n (step imgs s)"
      using inv' n fl0[of ?c] unfolding steady_def by (simp add: stp)
    moreover have "rank imgs (step imgs s) < rank imgs s"
      using Submit lt by (simp add: stp rank_def, arith)
    ultimately show ?thesis by simp
  next
    case Await_any
    obtain r q where g: "await_any ?p = (r, q)" by (cases "await_any ?p")
    have sq: "schedule q = schedule (q0 AwaitAny)"
      using g by (auto simp: await_any_def en split: if_splits list.splits)
    from await_any_cases[OF ok g] n
    have "(\<exists>e. r = Exn e) \<or> (r = Ret () \<and> length (in_flight q) < n)" by auto
    moreover have "r \<noteq> Exn e" for e
      using g by (auto simp: await_any_def en split: if_splits list.splits)
    ultimately have r: "r = Ret ()" and free: "length (in_flight q) < n" by auto
    have nq: "num_requests q = n"
      using await_any_cases[OF ok g] by (simp add: pipeline_ok_def)
    have stp: "step imgs s = s\<lparr>pipeline := q, pc := While_submit\<rparr>"
      using Await_any g r by (simp add: step_def call_def)
    have "steady imgs m n (step imgs s)"
      using inv' n fl0[of AwaitAny] sq unfolding steady_def by (simp add: stp)
    moreover have "rank imgs (step imgs s) < rank imgs s"
      using Await_any free nq by (simp add: stp rank_def)
    ultimately show ?thesis by simp
  next
    case Await_all
    let ?q = "fold complete (map fst (in_flight (q0 AwaitAll))) (q0 AwaitAll)"
    have stp: "step imgs s = s\<lparr>pipeline := ?q, pc := While_drain\<rparr>"
      using Await_all by (simp add: step_def call_def await_all_def en)
    have "steady imgs m n (step imgs s)"
      using inv' n fl0[of AwaitAll] unfolding steady_def by (simp add: stp)
    moreover have "rank imgs (step imgs s) < rank imgs s"
      using Await_all by (simp add: stp rank_def)
    ultimately show ?thesis by simp
  next
    case While_drain
    then have idle: "in_flight ?p = []" using inv by (simp add: driver_inv_def)
    let ?q = "q0 HasCompletedRequest"
    have idleq: "in_flight ?q = []" using len0[of HasCompletedRequest] idle by simp
    have stp: "step imgs s = s\<lparr>pipeline := ?q,
        pc := (if completed_request_results ?q \<noteq> [] then Show_drain else Returned)\<rparr>"
      using While_drain by (simp add: step_def call_def has_completed_request_def en)
    have "?lo < ?hi" if "completed_request_results ?q \<noteq> []"
    proof -
      have "length (in_flight ?q) + length (completed_request_results ?q) = ?hi - ?lo"
        using ok0 by (rule pipeline_ok_count)
      then show ?thesis using that by (cases "completed_request_results ?q") simp_all
    qed
    then have "steady imgs m n (step imgs s)"
      using inv' n fl0[of HasCompletedRequest] unfolding steady_def by (simp add: stp)
    moreover have "rank imgs (step imgs s) < rank imgs s"
      using While_drain by (simp add: stp rank_def)
    ultimately show ?thesis by simp
  next
    case Show_drain
    then have idle: "in_flight ?p = []" using inv by (simp add: driver_inv_def)
    from Show_drain have lt: "?lo < ?hi" using st by (simp add: steady_def)
    let ?q = "q0 (GetResult ?lo)"
    have idleq: "in_flight ?q = []" using len0[of "GetResult ?lo"] idle by simp
    have "set (map fst (in_flight ?q) @ map fst (completed_request_results ?q)) = {?lo..<?hi}"
      using ok0[of "GetResult ?lo"] by (simp add: pipeline_ok_def)
    then have "?lo \<in> fst ` set (completed_request_results ?q)"
      using idleq lt by simp
    then obtain y where y: "map_of (completed_request_results ?q) ?lo = Some y"
      by (cases "map_of (completed_request_results ?q) ?lo") (simp_all add: map_of_eq_None_iff)
    obtain res meta where ym: "y = (res, meta)" by (cases y)
    have stp: "step imgs s = s\<lparr>pipeline := ?q\<lparr>completed_request_results :=
              AList.delete ?lo (completed_request_results ?q)\<rparr>,
          displayed := displayed s @ [res], next_frame_id_to_show := ?lo + 1, pc := While_drain\<rparr>"
      using Show_drain y ym
      by (simp add: step_def call_def get_result_def en show_result_def showarray_def)
    have "steady imgs m n (step imgs s)"
      using inv' n fl0[of "GetResult ?lo"] unfolding steady_def by (simp add: stp)
    moreover have "rank imgs (step imgs s) < rank imgs s"
      using Show_drain lt by (simp add: stp rank_def)
    ultimately show ?thesis by simp
  next
    case Returned
    then show ?thesis using nf by (simp add: finished_def)
  next
    case (Raised e)
    then show ?thesis using nf by (simp add: finished_def)
  next
    case Blocked
    then show ?thesis using st by (simp add: steady_def)
  qed
qed


lemma do_inference_final:
  assumes "0 < n" and "faultless sched"
  shows "\<exists>s. do_inference imgs m n sched = Some s \<and> steady imgs m n s \<and> pc s = Returned"
proof -
  have init: "steady imgs m n (initial m n sched)" using assms by (rule steady_initial)
  have "\<exists>t. while_option (\<lambda>s. \<not> finished s) (step imgs) (initial m n sched) = Some t"
  proof (rule measure_while_option_Some[where f = "rank imgs" and P = "steady imgs m n"])
    show "steady imgs m n (initial m n sched)" by (rule init)
  next
    fix s :: "('a, 'b) state"
    assume "steady imgs m n s" and "\<not> finished s"
    then show "steady imgs m n (step imgs s) \<and> rank imgs (step imgs s) < rank imgs s"
      by (rule steady_step)
  qed
  then obtain t where t: "do_inference imgs m n sched = Some t"
    by (auto simp: do_inference_def)
  have st: "steady imgs m n t"
  proof (rule while_option_rule[where P = "steady imgs m n"])
    show "while_option (\<lambda>s. \<not> finished s) (step imgs) (initial m n sched) = Some t"
      using t by (simp add: do_inference_def)
    show "steady imgs m n (initial m n sched)" by (rule init)
  next
    fix s :: "('a, 'b) state"
    assume "steady imgs m n s" and "\<not> finished s"
    then show "steady imgs m n (step imgs s)" using steady_step by blast
  qed
  from t have "finished t" using do_inference_SomeD by blast
  with st have "pc t = Returned"
    by (cases "pc t") (simp_all add: finished_def steady_def)
  with t st show ?thesis by blast
qed

section \<open>The submissions of a run\<close>

lemma submissions_other:
  "(\<And>i x. c \<noteq> SubmitData i x) \<Longrightarrow> submissions (cs @ [c]) = submissions cs"
  by (cases c) (auto simp: submissions_snoc)

lemma step_next_frame_id:
  "pc s \<noteq> Submit \<Longrightarrow> next_frame_id (step imgs s) = next_frame_id s"
  by (cases "pc s")
    (auto simp: step_def call_def show_result_def showarray_def
       split: prod.splits reply.splits option.splits)

lemma submit_data_returns: "fst (submit_data x i y p) \<noteq> Hang"
  by (simp add: submit_data_def split: prod.splits option.splits)

lemma step_Submit:
  assumes "pc s = Submit"
  shows "next_frame_id (step imgs s) = next_frame_id s + 1 \<and> pc (step imgs s) = While_submit \<or>
         next_frame_id (step imgs s) = next_frame_id s \<and> (\<exists>e. pc (step imgs s) = Raised e)"
  using assms submit_data_returns[of "imgs ! next_frame_id s" "next_frame_id s" "imgs ! next_frame_id s" "pipeline s"]
  by (auto simp: step_def call_def finished_def split: prod.splits reply.splits)

lemma submitted_so_far_step:
  assumes "submitted_so_far imgs s"
  shows "submitted_so_far imgs (step imgs s)"
proof (cases "finished s")
  case True
  then show ?thesis using assms by (simp add: step_finished)
next
  case False
  let ?S = "submissions (calls (pipeline s))"
  have S: "?S = map (\<lambda>i. (i, imgs ! i)) [0..<length ?S]" and len: "length ?S = next_frame_id s"
    using assms False by (auto simp: submitted_so_far_def finished_def)
  show ?thesis
  proof (cases "next_call imgs s = Some (SubmitData (next_frame_id s) (imgs ! next_frame_id s)) \<and> pc s = Submit")
    case True
    then have "submissions (calls (pipeline (step imgs s))) = ?S @ [(next_frame_id s, imgs ! next_frame_id s)]"
      by (simp add: step_calls submissions_snoc)
    moreover have "?S @ [(next_frame_id s, imgs ! next_frame_id s)] =
        map (\<lambda>i. (i, imgs ! i)) [0..<Suc (length ?S)]"
      using S len by simp
    ultimately have a: "submissions (calls (pipeline (step imgs s))) =
        map (\<lambda>i. (i, imgs ! i)) [0..<Suc (next_frame_id s)]"
      using len by simp
    then have l: "length (submissions (calls (pipeline (step imgs s)))) = Suc (next_frame_id s)"
      by simp
    from True step_Submit[of s imgs] show ?thesis
      unfolding submitted_so_far_def l using a by auto
  next
    case other: False
    have same: "submissions (calls (pipeline (step imgs s))) = ?S"
    proof (cases "pc s")
      case Submit
      then have "next_call imgs s = None" using other by (auto simp: next_call_def)
      then show ?thesis by (simp add: step_calls)
    qed (simp_all add: step_calls next_call_def submissions_snoc)
    have nf: "next_frame_id (step imgs s) = next_frame_id s"
    proof (cases "pc s = Submit")
      case True
      then have "next_frame_id s \<ge> length imgs"
        using other by (auto simp: next_call_def split: if_splits)
      then show ?thesis using True by (simp add: step_def)
    next
      case False
      then show ?thesis by (rule step_next_frame_id)
    qed
    show ?thesis unfolding submitted_so_far_def same nf using S len by simp
  qed
qed

lemma submitted_so_far_run: "submitted_so_far imgs (run imgs m n sched k)"
proof (induction k)
  case 0
  show ?case by (simp add: run_def submitted_so_far_def initial_def CTAsyncPipeline_def)
next
  case (Suc k)
  then show ?case by (simp add: run_Suc submitted_so_far_step)
qed

section \<open>Scenarios, traced\<close>

text \<open>
  Two inputs, capacity 1, an engine that completes a request only when the driver
  waits for it. The loop test \<^verbatim>\<open>next_frame_id < len(imagelist) - 1\<close> fails once
  input 0 is submitted, so input 1 is never submitted.
\<close>

lemma two_inputs_run:
  "run [10, 11 :: nat] Suc 1 [] 8 =
     \<lparr>pipeline = \<lparr>model = Suc, num_requests = 1, in_flight = [],
        completed_request_results = [], schedule = [],
        calls = [GetResult 0, IsReady, SubmitData 0 10, AwaitAll, HasCompletedRequest,
                 GetResult 0, HasCompletedRequest]\<rparr>,
      next_frame_id = 1, next_frame_id_to_show = 1, displayed = [11], pc = Returned\<rparr>"
  by (simp add: exec_defs eval_nat_numeral)

lemma two_inputs_result:
  "do_inference [10, 11 :: nat] Suc 1 [] = Some (run [10, 11] Suc 1 [] 8)"
  by (rule do_inference_run, unfold two_inputs_run, simp add: finished_def)

text \<open>
  Four inputs, capacity 2, request 1 completes before request 0. After nine steps
  three requests are submitted and none is displayed: requests 0 and 2 are in flight
  and the completion record of request 1 waits in the pending set.
\<close>

lemma second_first_run_9:
  "run [10, 11, 12, 13 :: nat] Suc 2 second_first 9 =
     \<lparr>pipeline = \<lparr>model = Suc, num_requests = 2, in_flight = [(0, 10, 10), (2, 12, 12)],
        completed_request_results = [(1, 12, 11)], schedule = [],
        calls = [GetResult 0, IsReady, SubmitData 0 10, GetResult 0, IsReady, SubmitData 1 11,
                 GetResult 0, IsReady, SubmitData 2 12]\<rparr>,
      next_frame_id = 3, next_frame_id_to_show = 0, displayed = [], pc = While_submit\<rparr>"
  by (simp add: exec_defs second_first_def eval_nat_numeral)

lemma second_first_run_18:
  "run [10, 11, 12, 13 :: nat] Suc 2 second_first 18 =
     \<lparr>pipeline = \<lparr>model = Suc, num_requests = 2, in_flight = [],
        completed_request_results = [], schedule = [],
        calls = [GetResult 0, IsReady, SubmitData 0 10, GetResult 0, IsReady, SubmitData 1 11,
                 GetResult 0, IsReady, SubmitData 2 12, AwaitAll, HasCompletedRequest,
                 GetResult 0, HasCompletedRequest, GetResult 1, HasCompletedRequest,
                 GetResult 2, HasCompletedRequest]\<rparr>,
      next_frame_id = 3, next_frame_id_to_show = 3, displayed = [11, 12, 13], pc = Returned\<rparr>"
  by (simp add: exec_defs second_first_def eval_nat_numeral)

lemma second_first_result:
  "do_inference [10, 11, 12, 13 :: nat] Suc 2 second_first =
     Some (run [10, 11, 12, 13] Suc 2 second_first 18)"
  by (rule do_inference_run, unfold second_first_run_18, simp add: finished_def)

text \<open>
  Four inputs, capacity 2; the state in which the driver is about to make the third
  submission, in which the engine fails.
\<close>

lemma failing_third_submission_run_8:
  "run [10, 11, 12, 13 :: nat] Suc 2 failing_third_submission 8 =
     \<lparr>pipeline = \<lparr>model = Suc, num_requests = 2, in_flight = [],
        completed_request_results = [],
        schedule = [([], Some (EngineError ''engine failure''))],
        calls = [GetResult 0, IsReady, SubmitData 0 10, GetResult 0, IsReady, SubmitData 1 11,
                 GetResult 1, IsReady]\<rparr>,
      next_frame_id = 2, next_frame_id_to_show = 2, displayed = [11, 12], pc = Submit\<rparr>"
  by (simp add: exec_defs failing_third_submission_def eval_nat_numeral)

text \<open>
  Seven inputs, capacity 2, requests 1 and 2 complete before request 0. After twelve
  steps the completion records of requests 1 and 2 wait in the pending set for
  request 0; after sixteen, results 0 and 1 are displayed, the record of request 2
  still waits, and requests 3 and 4 occupy both slots; the driver then asks
  \<^verbatim>\<open>is_ready\<close>, blocks in \<^verbatim>\<open>await_any\<close> until request 3 completes, and only
  then fetches and displays result 2.
\<close>

lemma first_last_run_12:
  "run [10, 11, 12, 13, 14, 15, 16 :: nat] Suc 2 first_last 12 =
     \<lparr>pipeline = \<lparr>model = Suc, num_requests = 2, in_flight = [(0, 10, 10), (3, 13, 13)],
        completed_request_results = [(1, 12, 11), (2, 13, 12)], schedule = [([0], None)],
        calls = [GetResult 0, IsReady, SubmitData 0 10, GetResult 0, IsReady, SubmitData 1 11,
                 GetResult 0, IsReady, SubmitData 2 12, GetResult 0, IsReady, SubmitData 3 13]\<rparr>,
      next_frame_id = 4, next_frame_id_to_show = 0, displayed = [], pc = While_submit\<rparr>"
  by (simp add: exec_defs first_last_def eval_nat_numeral)

lemma first_last_run_16:
  "run [10, 11, 12, 13, 14, 15, 16 :: nat] Suc 2 first_last 16 =
     \<lparr>pipeline = \<lparr>model = Suc, num_requests = 2, in_flight = [(3, 13, 13), (4, 14, 14)],
        completed_request_results = [(2, 13, 12)], schedule = [],
        calls = [GetResult 0, IsReady, SubmitData 0 10, GetResult 0, IsReady, SubmitData 1 11,
                 GetResult 0, IsReady, SubmitData 2 12, GetResult 0, IsReady, SubmitData 3 13,
                 GetResult 0, IsReady, SubmitData 4 14, GetResult 1]\<rparr>,
      next_frame_id = 5, next_frame_id_to_show = 2, displayed = [11, 12], pc = If_ready\<rparr>"
  by (simp add: exec_defs first_last_def eval_nat_numeral)

lemma first_last_run_18:
  "run [10, 11, 12, 13, 14, 15, 16 :: nat] Suc 2 first_last 18 =
     \<lparr>pipeline = \<lparr>model = Suc, num_requests = 2, in_flight = [(4, 14, 14)],
        completed_request_results = [(2, 13, 12), (3, 14, 13)], schedule = [],
        calls = [GetResult 0, IsReady, SubmitData 0 10, GetResult 0, IsReady, SubmitData 1 11,
                 GetResult 0, IsReady, SubmitData 2 12, GetResult 0, IsReady, SubmitData 3 13,
                 GetResult 0, IsReady, SubmitData 4 14, GetResult 1, IsReady, AwaitAny]\<rparr>,
      next_frame_id = 5, next_frame_id_to_show = 2, displayed = [11, 12], pc = While_submit\<rparr>"
  by (simp add: exec_defs first_last_def eval_nat_numeral)

lemma first_last_run_19:
  "run [10, 11, 12, 13, 14, 15, 16 :: nat] Suc 2 first_last 19 =
     \<lparr>pipeline = \<lparr>model = Suc, num_requests = 2, in_flight = [(4, 14, 14)],
        completed_request_results = [(3, 14, 13)], schedule = [],
        calls = [GetResult 0, IsReady, SubmitData 0 10, GetResult 0, IsReady, SubmitData 1 11,
                 GetResult 0, IsReady, SubmitData 2 12, GetResult 0, IsReady, SubmitData 3 13,
                 GetResult 0, IsReady, SubmitData 4 14, GetResult 1, IsReady, AwaitAny,
                 GetResult 2]\<rparr>,
      next_frame_id = 5, next_frame_id_to_show = 3, displayed = [11, 12, 13], pc = If_ready\<rparr>"
  by (simp add: exec_defs first_last_def eval_nat_numeral)


section \<open>The claims\<close>

subsection \<open>C1: results are displayed in input order\<close>

text \<open>
  C1. For every finite input list and every order in which the engine makes
  completions available, the results are delivered in exactly the input order: at
  every point of the run the frames displayed so far are the model's results for
  the first inputs, in the order of the inputs, the \<open>i\<close>-th one for
  \<^verbatim>\<open>imagelist[i]\<close>, and as many as the delivery cursor counts. The same holds of
  the display the function leaves behind when it returns or raises.
\<close>

theorem deliveries_in_input_order:
  "displayed (run imagelist m n sched k) =
     map m (take (length (displayed (run imagelist m n sched k))) imagelist) \<and>
   length (displayed (run imagelist m n sched k)) =
     next_frame_id_to_show (run imagelist m n sched k) \<and>
   (do_inference imagelist m n sched = Some s \<longrightarrow>
      displayed s = map m (take (length (displayed s)) imagelist))"
proof -
  have a: "displayed (run imagelist m n sched j) =
      map m (take (length (displayed (run imagelist m n sched j))) imagelist)" for j
  proof -
    have inv: "driver_inv imagelist m n (run imagelist m n sched j)" by (rule driver_inv_run)
    then have d: "displayed (run imagelist m n sched j) =
        map m (take (next_frame_id_to_show (run imagelist m n sched j)) imagelist)"
      by (simp add: driver_inv_def)
    have l: "next_frame_id_to_show (run imagelist m n sched j) =
        length (displayed (run imagelist m n sched j))"
      using driver_inv_length[OF inv] by simp
    from d show ?thesis unfolding l .
  qed
  have b: "length (displayed (run imagelist m n sched k)) =
      next_frame_id_to_show (run imagelist m n sched k)"
    by (rule driver_inv_length) (rule driver_inv_run)
  have c: "displayed s = map m (take (length (displayed s)) imagelist)"
    if "do_inference imagelist m n sched = Some s"
  proof -
    from do_inference_SomeD[OF that] obtain j where "s = run imagelist m n sched j" by blast
    then show ?thesis using a[of j] by (simp only:)
  qed
  from a[of k] b c show ?thesis by blast
qed

text \<open>
  C1, witness: four inputs, capacity 2, request 1 completes before request 0; the
  function returns with the results of inputs 0, 1 and 2 displayed in this order.
\<close>

theorem deliveries_in_input_order_witness:
  "do_inference [10, 11, 12, 13 :: nat] Suc 2 second_first =
     Some (run [10, 11, 12, 13] Suc 2 second_first 18) \<and>
   displayed (run [10, 11, 12, 13 :: nat] Suc 2 second_first 18) = [11, 12, 13] \<and>
   displayed (run [10, 11, 12, 13 :: nat] Suc 2 second_first 18) =
     map Suc (take (length (displayed (run [10, 11, 12, 13 :: nat] Suc 2 second_first 18)))
       [10, 11, 12, 13])"
proof -
  have d: "displayed (run [10, 11, 12, 13 :: nat] Suc 2 second_first 18) = [11, 12, 13]"
    unfolding second_first_run_18 by simp
  from deliveries_in_input_order[of "[10, 11, 12, 13]" Suc 2 second_first 18
      "run [10, 11, 12, 13] Suc 2 second_first 18"]
  show ?thesis using second_first_result d by blast
qed

subsection \<open>C2: one result per input\<close>

text \<open>
  C2. The claim is that a run delivers exactly \<^verbatim>\<open>len(inputs)\<close> results. The
  first loop runs while \<^verbatim>\<open>next_frame_id < len(imagelist) - 1\<close>, so the last
  input is never submitted. With a capacity of at least one and an engine that raises
  nothing, the function returns having displayed the results of all inputs but the
  last: one result fewer than the claim says.
\<close>

theorem last_input_not_delivered:
  assumes "0 < n" and "faultless sched"
  shows "\<exists>s. do_inference imagelist m n sched = Some s \<and> pc s = Returned \<and>
           displayed s = map m (butlast imagelist) \<and>
           length (displayed s) = length imagelist - 1"
proof -
  from do_inference_final[OF assms, of imagelist m]
  obtain s where s: "do_inference imagelist m n sched = Some s"
    and st: "steady imagelist m n s" and pc: "pc s = Returned" by blast
  from st pc have "displayed s = map m (take (length imagelist - 1) imagelist)"
    by (simp add: steady_def driver_inv_def)
  then have "displayed s = map m (butlast imagelist)" by (simp add: butlast_conv_take)
  then show ?thesis using s pc by simp
qed

text \<open>
  C2, at the failing input: for the two inputs 10 and 11 the function returns with
  one frame displayed, the result of input 10.
\<close>

theorem last_input_not_delivered_witness:
  "(0 :: nat) < 1 \<and> faultless [] \<and>
   map_option displayed (do_inference [10, 11 :: nat] Suc 1 []) = Some (map Suc (butlast [10, 11])) \<and>
   map_option displayed (do_inference [10, 11 :: nat] Suc 1 []) = Some [11] \<and>
   map_option (length \<circ> displayed) (do_inference [10, 11 :: nat] Suc 1 []) = Some 1"
proof -
  have f: "faultless []" by (simp add: faultless_def)
  have p: "(0 :: nat) < 1" by simp
  from last_input_not_delivered[OF p f, of "[10, 11]" Suc] f show ?thesis by auto
qed

subsection \<open>C3: the empty input\<close>

text \<open>
  C3, as amended. The function has no check of its input. Called on an empty list
  with an engine that raises nothing in the two calls made, it skips the first loop,
  waits for the idle pipeline, finds no completed request and returns normally:
  nothing is submitted, nothing is displayed and no error is raised.
\<close>

theorem empty_input_returns_nothing:
  assumes "faultless (take 2 sched)"
  shows "do_inference [] m n sched =
     Some \<lparr>pipeline = \<lparr>model = m, num_requests = n, in_flight = [], completed_request_results = [],
             schedule = drop 2 sched, calls = [AwaitAll, HasCompletedRequest]\<rparr>,
           next_frame_id = 0, next_frame_id_to_show = 0, displayed = [], pc = Returned\<rparr>"
proof -
  have len: "length ([] :: 'a list) \<le> 1" by simp
  have "do_inference [] m n sched = Some (run [] m n sched 3)"
    using short_run_finished[OF len assms] by (rule do_inference_run)
  then show ?thesis by (simp only: short_run[OF len assms])
qed

text \<open>C3, witness: capacity 2 and an engine with one uneventful step.\<close>

theorem empty_input_returns_nothing_witness:
  "faultless (take 2 [([], None)]) \<and>
   do_inference ([] :: nat list) Suc 2 [([], None)] =
     Some \<lparr>pipeline = \<lparr>model = Suc, num_requests = 2, in_flight = [],
             completed_request_results = [], schedule = [],
             calls = [AwaitAll, HasCompletedRequest]\<rparr>,
           next_frame_id = 0, next_frame_id_to_show = 0, displayed = [], pc = Returned\<rparr>"
proof -
  have f: "faultless (take 2 [([], None)])" by (simp add: faultless_def)
  from empty_input_returns_nothing[where sched = "[([], None)]" and m = Suc and n = 2, OF f] f show ?thesis by simp
qed

text \<open>
  C3, counterexample to the claim as stated: on the empty list the function returns;
  it does not raise \<open>InvalidInput\<close>.
\<close>

theorem empty_input_not_rejected:
  "map_option pc (do_inference ([] :: nat list) Suc 1 []) = Some Returned \<and>
   map_option pc (do_inference ([] :: nat list) Suc 1 []) \<noteq> Some (Raised InvalidInput) \<and>
   map_option displayed (do_inference ([] :: nat list) Suc 1 []) = Some []"
proof -
  have a: "length ([] :: nat list) \<le> 1" and b: "faultless (take 2 [])"
    by (simp_all add: faultless_def)
  have "do_inference ([] :: nat list) Suc 1 [] = Some (run [] Suc 1 [] 3)"
    using short_run_finished[OF a b] by (rule do_inference_run)
  then show ?thesis by (simp add: short_run[OF a b])
qed

subsection \<open>C4: submissions\<close>

text \<open>
  C4. The claim is that every input is submitted exactly once, the \<open>k\<close>-th
  submission carrying \<^verbatim>\<open>inputs[k]\<close> and sequence id \<open>k\<close>. With a capacity of
  at least one and an engine that raises nothing, the submissions of a run are the
  inputs in order under the ids 0, 1, 2, ..., but they stop before the last input,
  which is never submitted.
\<close>

theorem last_input_not_submitted:
  assumes "0 < n" and "faultless sched"
  shows "\<exists>s. do_inference imagelist m n sched = Some s \<and> pc s = Returned \<and>
           submissions (calls (pipeline s)) =
             map (\<lambda>i. (i, imagelist ! i)) [0..<length imagelist - 1]"
proof -
  from do_inference_final[OF assms, of imagelist m]
  obtain s where s: "do_inference imagelist m n sched = Some s"
    and st: "steady imagelist m n s" and pc: "pc s = Returned" by blast
  from do_inference_SomeD[OF s] obtain k where "s = run imagelist m n sched k" by blast
  then have sub: "submitted_so_far imagelist s" by (simp add: submitted_so_far_run)
  from st pc have nf: "next_frame_id s = length imagelist - 1"
    by (simp add: steady_def driver_inv_def)
  have "length (submissions (calls (pipeline s))) = length imagelist - 1"
  proof -
    from sub pc have "length (submissions (calls (pipeline s))) = next_frame_id s"
      by (simp add: submitted_so_far_def)
    then show ?thesis using nf by simp
  qed
  with sub show ?thesis using s pc by (simp add: submitted_so_far_def)
qed

text \<open>
  C4, at the failing input: for the two inputs 10 and 11 the only submission is
  input 10 under id 0.
\<close>

theorem last_input_not_submitted_witness:
  "(0 :: nat) < 1 \<and> faultless [] \<and>
   map_option (submissions \<circ> calls \<circ> pipeline) (do_inference [10, 11 :: nat] Suc 1 []) =
     Some (map (\<lambda>i. (i, [10, 11] ! i)) [0..<length [10, 11 :: nat] - 1]) \<and>
   map_option (submissions \<circ> calls \<circ> pipeline) (do_inference [10, 11 :: nat] Suc 1 []) =
     Some [(0, 10)]"
proof -
  have f: "faultless []" by (simp add: faultless_def)
  have p: "(0 :: nat) < 1" by simp
  from last_input_not_submitted[OF p f, of "[10, 11]" Suc] f show ?thesis by auto
qed

subsection \<open>C5: the capacity bound\<close>

text \<open>
  C5, as amended. At every point of the run the number of requests in flight at the
  engine (submitted and not yet completed) is at most the capacity; the number of
  requests submitted and not yet displayed is the number in flight plus the number
  of completion records in the pending set, so it is at most the capacity plus the
  size of the pending set; and the driver submits only when the engine has just
  reported capacity: the submission is reached only from \<^verbatim>\<open>is_ready()\<close>
  returning \<open>True\<close>, and a slot is free when it is reached.
\<close>

theorem in_flight_within_capacity:
  "length (in_flight (pipeline (run imagelist m n sched k))) \<le> n \<and>
   num_requests (pipeline (run imagelist m n sched k)) = n \<and>
   next_frame_id (run imagelist m n sched k) - next_frame_id_to_show (run imagelist m n sched k) =
     length (in_flight (pipeline (run imagelist m n sched k))) +
     length (completed_request_results (pipeline (run imagelist m n sched k))) \<and>
   (pc (run imagelist m n sched k) = Submit \<longrightarrow>
      length (in_flight (pipeline (run imagelist m n sched k))) < n) \<and>
   (pc (run imagelist m n sched (Suc k)) = Submit \<longrightarrow>
      pc (run imagelist m n sched k) = If_ready \<and>
      fst (is_ready (pipeline (run imagelist m n sched k))) = Ret True)"
proof -
  let ?s = "run imagelist m n sched k"
  have inv: "driver_inv imagelist m n ?s" by (rule driver_inv_run)
  then have ok: "pipeline_ok imagelist m n (next_frame_id_to_show ?s) (next_frame_id ?s) (pipeline ?s)"
    by (simp add: driver_inv_def)
  have a: "length (in_flight (pipeline ?s)) \<le> n" and b: "num_requests (pipeline ?s) = n"
    using ok by (simp_all add: pipeline_ok_def)
  have c: "next_frame_id ?s - next_frame_id_to_show ?s =
      length (in_flight (pipeline ?s)) + length (completed_request_results (pipeline ?s))"
    using pipeline_ok_count[OF ok] by simp
  have d: "pc ?s = Submit \<longrightarrow> length (in_flight (pipeline ?s)) < n"
    using inv by (auto simp: driver_inv_def)
  have e: "pc (run imagelist m n sched (Suc k)) = Submit \<longrightarrow>
      pc ?s = If_ready \<and> fst (is_ready (pipeline ?s)) = Ret True"
    using step_to_Submit[of imagelist ?s] by (simp add: run_Suc)
  from a b c d e show ?thesis by blast
qed

text \<open>
  C5, witness: with two inputs and capacity 1 the driver reaches the submission in
  its second step, from \<^verbatim>\<open>is_ready()\<close> returning \<open>True\<close>, with a free slot.
\<close>

theorem in_flight_within_capacity_witness:
  "pc (run [10, 11 :: nat] Suc 1 [] 2) = Submit \<and>
   length (in_flight (pipeline (run [10, 11 :: nat] Suc 1 [] 2))) < 1 \<and>
   pc (run [10, 11 :: nat] Suc 1 [] (Suc 1)) = Submit \<and>
   pc (run [10, 11 :: nat] Suc 1 [] 1) = If_ready \<and>
   fst (is_ready (pipeline (run [10, 11 :: nat] Suc 1 [] 1))) = Ret True"
proof -
  have a: "pc (run [10, 11 :: nat] Suc 1 [] 2) = Submit"
    by (simp add: exec_defs eval_nat_numeral)
  have b: "pc (run [10, 11 :: nat] Suc 1 [] (Suc 1)) = Submit"
    by (simp add: exec_defs eval_nat_numeral)
  from in_flight_within_capacity[of "[10, 11]" Suc 1 "[]" 2]
    in_flight_within_capacity[of "[10, 11]" Suc 1 "[]" 1] a b
  show ?thesis by blast
qed

text \<open>
  C5, counterexample to the claim as stated: four inputs, capacity 2, request 1
  completes before request 0. After nine steps three requests are submitted and
  none is displayed, which is more than the capacity.
\<close>

theorem outstanding_exceeds_capacity:
  "num_requests (pipeline (run [10, 11, 12, 13 :: nat] Suc 2 second_first 9)) = 2 \<and>
   next_frame_id (run [10, 11, 12, 13 :: nat] Suc 2 second_first 9) -
     next_frame_id_to_show (run [10, 11, 12, 13 :: nat] Suc 2 second_first 9) = 3 \<and>
   \<not> next_frame_id (run [10, 11, 12, 13 :: nat] Suc 2 second_first 9) -
       next_frame_id_to_show (run [10, 11, 12, 13 :: nat] Suc 2 second_first 9)
     \<le> num_requests (pipeline (run [10, 11, 12, 13 :: nat] Suc 2 second_first 9))"
  unfolding second_first_run_9 by simp

subsection \<open>C6: errors of the engine\<close>

text \<open>
  C6. If the engine raises an error \<open>e\<close> in a call of the driver (a submission or
  any poll), the function is left by \<open>e\<close> itself in that very step: the failing
  call is the last call made (no retry, no further submission), the display and
  both cursors are as they were before the call, so what was delivered stays
  delivered, and the caller of the function gets the state with \<open>Raised e\<close>.
\<close>

theorem engine_error_propagates:
  assumes "schedule (pipeline s) = (ids, Some e) # rest"
    and "next_call imagelist s = Some c"
  shows "pc (step imagelist s) = Raised e \<and>
         calls (pipeline (step imagelist s)) = calls (pipeline s) @ [c] \<and>
         schedule (pipeline (step imagelist s)) = rest \<and>
         displayed (step imagelist s) = displayed s \<and>
         next_frame_id (step imagelist s) = next_frame_id s \<and>
         next_frame_id_to_show (step imagelist s) = next_frame_id_to_show s \<and>
         (step imagelist ^^ j) (step imagelist s) = step imagelist s \<and>
         (s = run imagelist m n sched k \<longrightarrow>
            do_inference imagelist m n sched = Some (step imagelist s))"
proof -
  have st: "step imagelist s = s\<lparr>pipeline := snd (enter c (pipeline s)), pc := Raised e\<rparr>"
    using assms by (rule step_raises)
  have fin: "finished (step imagelist s)" by (simp add: st finished_def)
  have a: "(step imagelist ^^ j) (step imagelist s) = step imagelist s"
    using fin by (rule funpow_step_finished)
  have b: "do_inference imagelist m n sched = Some (step imagelist s)"
    if "s = run imagelist m n sched k"
  proof -
    have "finished (run imagelist m n sched (Suc k))" using fin that by (simp add: run_Suc)
    then have "do_inference imagelist m n sched = Some (run imagelist m n sched (Suc k))"
      by (rule do_inference_run)
    then show ?thesis using that by (simp add: run_Suc)
  qed
  have c: "schedule (snd (enter c (pipeline s))) = rest"
    using assms(1) by (rule enter_raises)
  show ?thesis using a b c by (simp add: st enter_calls)
qed

text \<open>
  C6, witness: four inputs, capacity 2, results 0 and 1 are displayed and the engine
  fails in the third submission. The function is left by that error, with the two
  results displayed and the failing submission as its last call.
\<close>

theorem engine_error_propagates_witness:
  "schedule (pipeline (run [10, 11, 12, 13 :: nat] Suc 2 failing_third_submission 8)) =
     [([], Some (EngineError ''engine failure''))] \<and>
   next_call [10, 11, 12, 13] (run [10, 11, 12, 13 :: nat] Suc 2 failing_third_submission 8) =
     Some (SubmitData 2 12) \<and>
   do_inference [10, 11, 12, 13 :: nat] Suc 2 failing_third_submission =
     Some (step [10, 11, 12, 13] (run [10, 11, 12, 13] Suc 2 failing_third_submission 8)) \<and>
   pc (step [10, 11, 12, 13] (run [10, 11, 12, 13 :: nat] Suc 2 failing_third_submission 8)) =
     Raised (EngineError ''engine failure'') \<and>
   displayed (step [10, 11, 12, 13] (run [10, 11, 12, 13 :: nat] Suc 2 failing_third_submission 8)) =
     [11, 12] \<and>
   submissions (calls (pipeline
       (step [10, 11, 12, 13] (run [10, 11, 12, 13 :: nat] Suc 2 failing_third_submission 8)))) =
     [(0, 10), (1, 11), (2, 12)]"
proof -
  let ?s = "run [10, 11, 12, 13 :: nat] Suc 2 failing_third_submission 8"
  have a: "schedule (pipeline ?s) = ([], Some (EngineError ''engine failure'')) # []"
    unfolding failing_third_submission_run_8 by simp
  have b: "next_call [10, 11, 12, 13] ?s = Some (SubmitData 2 12)"
    unfolding failing_third_submission_run_8 by (simp add: next_call_def)
  have c: "displayed ?s = [11, 12]"
    unfolding failing_third_submission_run_8 by simp
  have d: "submissions (calls (pipeline ?s) @ [SubmitData 2 12]) = [(0, 10), (1, 11), (2, 12)]"
    unfolding failing_third_submission_run_8 by simp
  from engine_error_propagates[OF a b, where j = 0 and m = Suc and n = 2 and sched = failing_third_submission and k = 8] a b c d
  show ?thesis by simp
qed

subsection \<open>C7: termination\<close>

text \<open>
  C7. The claim is that the run ends exactly when the delivery cursor equals
  \<^verbatim>\<open>len(inputs)\<close>. With a capacity of at least one and an engine that raises
  nothing and completes every request waited for, the function does return, for
  every input list, but with both cursors at \<^verbatim>\<open>len(imagelist) - 1\<close>: it ends
  once the inputs before the last one are submitted and displayed.
\<close>

theorem returns_before_last_input:
  assumes "0 < n" and "faultless sched"
  shows "\<exists>s. do_inference imagelist m n sched = Some s \<and> pc s = Returned \<and>
           next_frame_id s = length imagelist - 1 \<and>
           next_frame_id_to_show s = length imagelist - 1"
proof -
  from do_inference_final[OF assms, of imagelist m]
  obtain s where s: "do_inference imagelist m n sched = Some s"
    and st: "steady imagelist m n s" and pc: "pc s = Returned" by blast
  from st pc have "next_frame_id s = length imagelist - 1"
    and "next_frame_id_to_show s = length imagelist - 1"
    by (simp_all add: steady_def driver_inv_def)
  then show ?thesis using s pc by simp
qed

text \<open>
  C7, at the failing input: for four inputs the function returns with both cursors
  at 3.
\<close>

theorem returns_before_last_input_witness:
  "(0 :: nat) < 2 \<and> faultless second_first \<and>
   map_option pc (do_inference [10, 11, 12, 13 :: nat] Suc 2 second_first) = Some Returned \<and>
   map_option next_frame_id_to_show (do_inference [10, 11, 12, 13 :: nat] Suc 2 second_first) =
     Some 3 \<and>
   map_option next_frame_id (do_inference [10, 11, 12, 13 :: nat] Suc 2 second_first) = Some 3"
proof -
  have f: "faultless second_first" by (simp add: faultless_def second_first_def)
  have p: "(0 :: nat) < 2" by simp
  from returns_before_last_input[OF p f, of "[10, 11, 12, 13]" Suc] f show ?thesis by auto
qed

subsection \<open>C8: draining a buffered run\<close>

text \<open>
  C8. The claim is that buffered completions that become deliverable are delivered
  in one pass with no poll in between. The first loop displays at most one result
  per iteration and then asks \<^verbatim>\<open>is_ready()\<close> and submits or waits. In the
  scenario \<open>first_last\<close> the records of requests 1 and 2 are buffered when request 0
  completes; result 0 is displayed in step 13 and result 1 in step 16, and then,
  with the record of request 2 still in the pending set, the driver calls
  \<^verbatim>\<open>is_ready()\<close> and the blocking \<^verbatim>\<open>await_any()\<close> before it fetches
  result 2 in step 19.
\<close>

theorem buffered_run_not_drained_in_one_pass:
  "map fst (completed_request_results
      (pipeline (run [10, 11, 12, 13, 14, 15, 16 :: nat] Suc 2 first_last 12))) = [1, 2] \<and>
   next_frame_id_to_show (run [10, 11, 12, 13, 14, 15, 16 :: nat] Suc 2 first_last 12) = 0 \<and>
   displayed (run [10, 11, 12, 13, 14, 15, 16 :: nat] Suc 2 first_last 16) = [11, 12] \<and>
   map fst (completed_request_results
      (pipeline (run [10, 11, 12, 13, 14, 15, 16 :: nat] Suc 2 first_last 16))) = [2] \<and>
   displayed (run [10, 11, 12, 13, 14, 15, 16 :: nat] Suc 2 first_last 18) = [11, 12] \<and>
   displayed (run [10, 11, 12, 13, 14, 15, 16 :: nat] Suc 2 first_last 19) = [11, 12, 13] \<and>
   drop 12 (calls (pipeline (run [10, 11, 12, 13, 14, 15, 16 :: nat] Suc 2 first_last 19))) =
     [GetResult 0, IsReady, SubmitData 4 14, GetResult 1, IsReady, AwaitAny, GetResult 2]"
  unfolding first_last_run_12 first_last_run_16 first_last_run_18 first_last_run_19 by simp

subsection \<open>C9: a single input\<close>

text \<open>
  C9. For an input list of length 1 the body of the first loop never runs: with an
  engine that raises nothing in the two calls made, the function calls
  \<^verbatim>\<open>await_all()\<close> and \<^verbatim>\<open>has_completed_request()\<close> and returns normally; the
  input is never submitted and nothing is displayed.
\<close>

theorem single_input_never_submitted:
  assumes "faultless (take 2 sched)"
  shows "do_inference [frame] m n sched =
     Some \<lparr>pipeline = \<lparr>model = m, num_requests = n, in_flight = [], completed_request_results = [],
             schedule = drop 2 sched, calls = [AwaitAll, HasCompletedRequest]\<rparr>,
           next_frame_id = 0, next_frame_id_to_show = 0, displayed = [], pc = Returned\<rparr>"
proof -
  have len: "length [frame] \<le> 1" by simp
  have "do_inference [frame] m n sched = Some (run [frame] m n sched 3)"
    using short_run_finished[OF len assms] by (rule do_inference_run)
  then show ?thesis by (simp only: short_run[OF len assms])
qed

text \<open>
  C9, witness: one input, capacity 2; the engine would complete request 3 before
  the first call, but nothing was submitted.
\<close>

theorem single_input_never_submitted_witness:
  "faultless (take 2 [([3], None)]) \<and>
   do_inference [10 :: nat] Suc 2 [([3], None)] =
     Some \<lparr>pipeline = \<lparr>model = Suc, num_requests = 2, in_flight = [],
             completed_request_results = [], schedule = [],
             calls = [AwaitAll, HasCompletedRequest]\<rparr>,
           next_frame_id = 0, next_frame_id_to_show = 0, displayed = [], pc = Returned\<rparr>"
proof -
  have f: "faultless (take 2 [([3], None)])" by (simp add: faultless_def)
  from single_input_never_submitted[where sched = "[([3], None)]" and frame = 10 and m = Suc and n = 2, OF f] f show ?thesis by simp
qed

subsection \<open>C10: the cursors\<close>

text \<open>
  C10. At every point of the run the delivery cursor is at most the submission
  cursor and equals the number of frames displayed; a step either leaves the cursor
  and the display as they are or displays one more frame and moves the cursor by
  exactly one; and a step either asks for no result or asks for the result of the
  current delivery cursor, which is the id of no frame displayed so far. The engine
  of the model completes only requests that were submitted.
\<close>

theorem delivery_cursor_behind_submission_cursor:
  "next_frame_id_to_show (run imagelist m n sched k) \<le> next_frame_id (run imagelist m n sched k) \<and>
   next_frame_id_to_show (run imagelist m n sched k) =
     length (displayed (run imagelist m n sched k)) \<and>
   (next_frame_id_to_show (run imagelist m n sched (Suc k)) =
      next_frame_id_to_show (run imagelist m n sched k) \<and>
    displayed (run imagelist m n sched (Suc k)) = displayed (run imagelist m n sched k) \<or>
    next_frame_id_to_show (run imagelist m n sched (Suc k)) =
      next_frame_id_to_show (run imagelist m n sched k) + 1 \<and>
    length (displayed (run imagelist m n sched (Suc k))) =
      length (displayed (run imagelist m n sched k)) + 1) \<and>
   (requests (calls (pipeline (run imagelist m n sched (Suc k)))) =
      requests (calls (pipeline (run imagelist m n sched k))) \<or>
    requests (calls (pipeline (run imagelist m n sched (Suc k)))) =
      requests (calls (pipeline (run imagelist m n sched k))) @
        [next_frame_id_to_show (run imagelist m n sched k)])"
proof -
  let ?s = "run imagelist m n sched k"
  have inv: "driver_inv imagelist m n ?s" by (rule driver_inv_run)
  have a: "next_frame_id_to_show ?s \<le> next_frame_id ?s"
    using inv by (simp add: driver_inv_def)
  have b: "next_frame_id_to_show ?s = length (displayed ?s)"
    using driver_inv_length[OF inv] by simp
  show ?thesis
    unfolding run_Suc using a b step_cursor[of imagelist ?s] step_requests[of imagelist ?s]
    by blast
qed

text \<open>
  C10, witness: in the scenario \<open>second_first\<close> the thirteenth step asks for result
  0 with the delivery cursor at 0 and the submission cursor at 3, displays it and
  moves the cursor to 1.
\<close>

theorem delivery_cursor_behind_submission_cursor_witness:
  "next_frame_id_to_show (run [10, 11, 12, 13 :: nat] Suc 2 second_first 12) = 0 \<and>
   next_frame_id (run [10, 11, 12, 13 :: nat] Suc 2 second_first 12) = 3 \<and>
   next_frame_id_to_show (run [10, 11, 12, 13 :: nat] Suc 2 second_first (Suc 12)) = 1 \<and>
   displayed (run [10, 11, 12, 13 :: nat] Suc 2 second_first (Suc 12)) = [11] \<and>
   requests (calls (pipeline (run [10, 11, 12, 13 :: nat] Suc 2 second_first (Suc 12)))) =
     requests (calls (pipeline (run [10, 11, 12, 13 :: nat] Suc 2 second_first 12))) @ [0] \<and>
   next_frame_id_to_show (run [10, 11, 12, 13 :: nat] Suc 2 second_first 12) \<le>
     next_frame_id (run [10, 11, 12, 13 :: nat] Suc 2 second_first 12)"
proof -
  have a: "next_frame_id_to_show (run [10, 11, 12, 13 :: nat] Suc 2 second_first 12) = 0 \<and>
      next_frame_id (run [10, 11, 12, 13 :: nat] Suc 2 second_first 12) = 3"
    by (simp add: exec_defs second_first_def eval_nat_numeral)
  have b: "next_frame_id_to_show (run [10, 11, 12, 13 :: nat] Suc 2 second_first (Suc 12)) = 1 \<and>
      displayed (run [10, 11, 12, 13 :: nat] Suc 2 second_first (Suc 12)) = [11]"
    by (simp add: exec_defs second_first_def eval_nat_numeral)
  have c: "requests (calls (pipeline (run [10, 11, 12, 13 :: nat] Suc 2 second_first (Suc 12)))) \<noteq>
      requests (calls (pipeline (run [10, 11, 12, 13 :: nat] Suc 2 second_first 12)))"
    by (simp add: exec_defs second_first_def eval_nat_numeral)
  from delivery_cursor_behind_submission_cursor[of "[10, 11, 12, 13]" Suc 2 second_first 12] a b c
  show ?thesis by simp
qed

end
